theory Spec2Isabelle
  imports Main "HOL-Library.Word" "HOL-Library.Sublist"
begin

section \<open>Strings of the host language\<close>

text \<open>
  A JavaScript string is a finite sequence of 16-bit code units; \<open>length\<close>,
  \<open>charCodeAt\<close>, \<open>substring\<close> and \<open>indexOf\<close> all count code units. The
  literals of the source are ASCII and are written through \<open>js\<close>.
\<close>

type_synonym unit16 = "16 word"
type_synonym jsstring = "unit16 list"

definition js :: "string \<Rightarrow> jsstring" where
  "js s = map of_char s"

definition CRLF :: jsstring where
  "CRLF = [0x0D, 0x0A]"

text \<open>\<open>Array.prototype.join\<close> on an array of strings.\<close>

fun joinWith :: "jsstring \<Rightarrow> jsstring list \<Rightarrow> jsstring" where
  "joinWith sep [] = []"
| "joinWith sep [x] = x"
| "joinWith sep (x # y # ys) = x @ sep @ joinWith sep (y # ys)"

text \<open>\<open>String.prototype.indexOf\<close> for a single unit; \<open>None\<close> is the source's \<open>-1\<close>.\<close>

fun indexOf :: "jsstring \<Rightarrow> unit16 \<Rightarrow> nat option" where
  "indexOf [] c = None"
| "indexOf (x # xs) c = (if x = c then Some 0 else map_option Suc (indexOf xs c))"

text \<open>\<open>String.prototype.trim\<close> removes the WhiteSpace and LineTerminator units of
  ECMAScript from both ends.\<close>

definition isWhiteSpace :: "unit16 \<Rightarrow> bool" where
  "isWhiteSpace c =
     (c = 0x09 \<or> c = 0x0A \<or> c = 0x0B \<or> c = 0x0C \<or> c = 0x0D \<or> c = 0x20 \<or> c = 0xA0
      \<or> c = 0x1680 \<or> (0x2000 \<le> c \<and> c \<le> 0x200A) \<or> c = 0x2028 \<or> c = 0x2029
      \<or> c = 0x202F \<or> c = 0x205F \<or> c = 0x3000 \<or> c = 0xFEFF)"

definition trim :: "jsstring \<Rightarrow> jsstring" where
  "trim s = rev (dropWhile isWhiteSpace (rev (dropWhile isWhiteSpace s)))"

text \<open>Assignment \<open>obj[k] = v\<close> on an object used as a dictionary: an existing key keeps
  its place, a new key goes last.\<close>

fun assign :: "'k \<Rightarrow> 'v \<Rightarrow> ('k \<times> 'v) list \<Rightarrow> ('k \<times> 'v) list" where
  "assign k v [] = [(k, v)]"
| "assign k v ((k', v') # kvs) =
     (if k = k' then (k, v) # kvs else (k', v') # assign k v kvs)"

section \<open>The host environment\<close>

text \<open>
  The source relies on four builtins whose results depend on the engine and on the
  machine's time zone: \<open>Date.UTC(y, m, d, h, mi, s)\<close>, \<open>new Date(y, m, d, h, mi, s)\<close>
  (local time), \<open>Date.prototype.getFullYear\<close> (local time) and
  \<open>String.prototype.toUpperCase\<close>. They are parameters of the model. A \<open>Date\<close> is
  represented by its time value, the integer number of milliseconds since the epoch;
  comparison and subtraction of dates in the source act on time values.
\<close>

type_synonym jsdate = int

record host =
  dateUTC :: "int \<Rightarrow> int \<Rightarrow> int \<Rightarrow> int \<Rightarrow> int \<Rightarrow> int \<Rightarrow> jsdate"
  dateLocal :: "int \<Rightarrow> int \<Rightarrow> int \<Rightarrow> int \<Rightarrow> int \<Rightarrow> int \<Rightarrow> jsdate"
  getFullYear :: "jsdate \<Rightarrow> int"
  toUpperCase :: "jsstring \<Rightarrow> jsstring"

section \<open>Data model\<close>

record eprop =
  prop_value :: jsstring
  prop_parameters :: jsstring
  prop_raw :: jsstring

record cprop =
  cprop_value :: jsstring
  cprop_raw :: jsstring

text \<open>An event as \<open>parse\<close> builds it: the \<open>properties\<close> object in insertion order and
  the \<open>_rawLines\<close> array. An event without \<open>_rawLines\<close> is read by the writer exactly as
  one whose array is empty, and is represented so. The source looks \<open>properties\<close> up by
  the key \<open>DTSTART\<close> only, and enumerates it only for an event without raw lines; the
  special treatment that a JavaScript object gives to integer-like keys and to
  \<open>__proto__\<close> concerns the enumeration alone.\<close>

record event =
  properties :: "(jsstring \<times> eprop) list"
  rawLines :: "jsstring list"

record calendar =
  headerLines :: "jsstring list"
  events :: "event list"
  calProperties :: "(jsstring \<times> cprop) list"

section \<open>ICalParser.parse\<close>

text \<open>\<open>replace(/\r\n/g, '\n')\<close>, then \<open>replace(/\r/g, '\n')\<close>, then
  \<open>replace(/\n[ \t]/g, '')\<close>: each scans left to right without overlap.\<close>

fun replaceCRLF :: "jsstring \<Rightarrow> jsstring" where
  "replaceCRLF (c # d # cs) =
     (if c = 0x0D \<and> d = 0x0A then 0x0A # replaceCRLF cs else c # replaceCRLF (d # cs))"
| "replaceCRLF cs = cs"

definition replaceCR :: "jsstring \<Rightarrow> jsstring" where
  "replaceCR s = map (\<lambda>c. if c = 0x0D then 0x0A else c) s"

fun unfoldContent :: "jsstring \<Rightarrow> jsstring" where
  "unfoldContent (c # d # cs) =
     (if c = 0x0A \<and> (d = 0x20 \<or> d = 0x09) then unfoldContent cs
      else c # unfoldContent (d # cs))"
| "unfoldContent cs = cs"

text \<open>\<open>split('\n')\<close>: the empty string gives one empty line.\<close>

fun splitLF :: "jsstring \<Rightarrow> jsstring list" where
  "splitLF [] = [[]]"
| "splitLF (c # cs) =
     (if c = 0x0A then [] # splitLF cs
      else (case splitLF cs of l # ls \<Rightarrow> (c # l) # ls | [] \<Rightarrow> [[c]]))"

definition contentLines :: "jsstring \<Rightarrow> jsstring list" where
  "contentLines icsContent =
     filter (\<lambda>line. trim line \<noteq> [])
       (splitLF (unfoldContent (replaceCR (replaceCRLF icsContent))))"

text \<open>The name of a property line whose first colon is at \<open>colonIndex\<close>, and the
  parameter string kept with it.\<close>

definition propertyName :: "jsstring \<Rightarrow> nat \<Rightarrow> jsstring" where
  "propertyName trimmedLine colonIndex =
     (let propertyPart = take colonIndex trimmedLine in
      case indexOf propertyPart 0x3B of
        None \<Rightarrow> propertyPart
      | Some semicolonIndex \<Rightarrow> take semicolonIndex propertyPart)"

definition propertyParameters :: "jsstring \<Rightarrow> nat \<Rightarrow> jsstring" where
  "propertyParameters trimmedLine colonIndex =
     (let propertyPart = take colonIndex trimmedLine in
      case indexOf propertyPart 0x3B of
        None \<Rightarrow> []
      | Some semicolonIndex \<Rightarrow> drop semicolonIndex propertyPart)"

text \<open>The variables of the loop in \<open>parse\<close>. \<open>currentEvent\<close> holds the \<open>properties\<close>
  of the event being read, or \<open>None\<close> for the source's \<open>null\<close>.\<close>

record pstate =
  calendarOf :: calendar
  currentEvent :: "(jsstring \<times> eprop) list option"
  currentEventLines :: "jsstring list"
  inEvent :: bool
  foundFirstEvent :: bool
  inValarm :: bool

definition initialState :: pstate where
  "initialState =
     \<lparr>calendarOf = \<lparr>headerLines = [], events = [], calProperties = []\<rparr>,
      currentEvent = None, currentEventLines = [], inEvent = False,
      foundFirstEvent = False, inValarm = False\<rparr>"

text \<open>One iteration of the loop: the body after \<open>const trimmedLine = line.trim()\<close>,
  in the order of the source's tests.\<close>

definition processLine :: "pstate \<Rightarrow> jsstring \<Rightarrow> pstate" where
  "processLine st trimmedLine =
     (if trimmedLine = js ''BEGIN:VEVENT'' then
        st\<lparr>foundFirstEvent := True, inEvent := True, currentEventLines := [],
           currentEvent := Some []\<rparr>
      else if trimmedLine = js ''END:VEVENT'' then
        st\<lparr>calendarOf :=
             (case currentEvent st of
                Some props \<Rightarrow>
                  (calendarOf st)\<lparr>events := events (calendarOf st) @
                     [\<lparr>properties = props, rawLines = currentEventLines st\<rparr>]\<rparr>
              | None \<Rightarrow> calendarOf st),
           currentEvent := None, currentEventLines := [], inEvent := False,
           inValarm := False\<rparr>
      else if trimmedLine = js ''END:VCALENDAR'' then st
      else if inEvent st then
        (if trimmedLine = js ''BEGIN:VALARM'' then st\<lparr>inValarm := True\<rparr>
         else if trimmedLine = js ''END:VALARM'' then st\<lparr>inValarm := False\<rparr>
         else if inValarm st then st
         else
           st\<lparr>currentEventLines := currentEventLines st @ [trimmedLine],
              currentEvent :=
                (case indexOf trimmedLine 0x3A of
                   None \<Rightarrow> currentEvent st
                 | Some colonIndex \<Rightarrow>
                     map_option
                       (assign (propertyName trimmedLine colonIndex)
                          \<lparr>prop_value = drop (colonIndex + 1) trimmedLine,
                           prop_parameters = propertyParameters trimmedLine colonIndex,
                           prop_raw = trimmedLine\<rparr>)
                       (currentEvent st))\<rparr>)
      else if \<not> foundFirstEvent st then
        st\<lparr>calendarOf :=
             (calendarOf st)\<lparr>
               headerLines := headerLines (calendarOf st) @ [trimmedLine],
               calProperties :=
                 (case indexOf trimmedLine 0x3A of
                    None \<Rightarrow> calProperties (calendarOf st)
                  | Some colonIndex \<Rightarrow>
                      if prefix (js ''BEGIN:'') trimmedLine
                      then calProperties (calendarOf st)
                      else assign (propertyName trimmedLine colonIndex)
                             \<lparr>cprop_value = drop (colonIndex + 1) trimmedLine,
                              cprop_raw = trimmedLine\<rparr>
                             (calProperties (calendarOf st)))\<rparr>\<rparr>
      else st)"

definition parseLine :: "pstate \<Rightarrow> jsstring \<Rightarrow> pstate" where
  "parseLine st line = processLine st (trim line)"

definition parse :: "jsstring \<Rightarrow> calendar" where
  "parse icsContent = calendarOf (foldl parseLine initialState (contentLines icsContent))"

section \<open>ICalParser.parseICalDate and getEventDate\<close>

text \<open>\<open>dateStr.replace(/^.*:/, '')\<close>: the pattern is tried at the start of the string
  only, the dot matches any unit but a line terminator, and the star is greedy; the
  match ends at the last colon before the first line terminator.\<close>

definition isLineTerminator :: "unit16 \<Rightarrow> bool" where
  "isLineTerminator c = (c = 0x0A \<or> c = 0x0D \<or> c = 0x2028 \<or> c = 0x2029)"

definition lastIndexOf :: "jsstring \<Rightarrow> unit16 \<Rightarrow> nat option" where
  "lastIndexOf s c = map_option (\<lambda>j. length s - 1 - j) (indexOf (rev s) c)"

definition stripToColon :: "jsstring \<Rightarrow> jsstring" where
  "stripToColon dateStr =
     (case lastIndexOf (takeWhile (\<lambda>c. \<not> isLineTerminator c) dateStr) 0x3A of
        None \<Rightarrow> dateStr
      | Some i \<Rightarrow> drop (Suc i) dateStr)"

definition isDigit :: "unit16 \<Rightarrow> bool" where
  "isDigit c = (0x30 \<le> c \<and> c \<le> 0x39)"

text \<open>\<open>\d{n}\<close> at the head of the input: the group and the rest.\<close>

fun digitsN :: "nat \<Rightarrow> jsstring \<Rightarrow> (jsstring \<times> jsstring) option" where
  "digitsN 0 s = Some ([], s)"
| "digitsN (Suc n) [] = None"
| "digitsN (Suc n) (c # cs) =
     (if isDigit c then map_option (\<lambda>(g, r). (c # g, r)) (digitsN n cs) else None)"

text \<open>The groups 5, 6, 7 and 8 of the pattern, after the date:
  \<open>(T(\d{2})(\d{2})(\d{2})(Z)?)?$\<close>.\<close>

definition matchTime :: "jsstring \<Rightarrow> (jsstring \<times> jsstring \<times> jsstring \<times> bool) option option" where
  "matchTime s =
     (case s of
        [] \<Rightarrow> Some None
      | c # r0 \<Rightarrow>
          if c = 0x54 then
            (case digitsN 2 r0 of None \<Rightarrow> None | Some (hh, r1) \<Rightarrow>
             case digitsN 2 r1 of None \<Rightarrow> None | Some (mi, r2) \<Rightarrow>
             case digitsN 2 r2 of None \<Rightarrow> None | Some (ss, r3) \<Rightarrow>
               if r3 = [] then Some (Some (hh, mi, ss, False))
               else if r3 = [0x5A] then Some (Some (hh, mi, ss, True))
               else None)
          else None)"

text \<open>\<open>cleanDateStr.match(/^(\d{4})(\d{2})(\d{2})(T(\d{2})(\d{2})(\d{2})(Z)?)?$/)\<close>.\<close>

definition matchDate ::
  "jsstring \<Rightarrow> (jsstring \<times> jsstring \<times> jsstring \<times>
      (jsstring \<times> jsstring \<times> jsstring \<times> bool) option) option" where
  "matchDate s =
     (case digitsN 4 s of None \<Rightarrow> None | Some (y, r1) \<Rightarrow>
      case digitsN 2 r1 of None \<Rightarrow> None | Some (m, r2) \<Rightarrow>
      case digitsN 2 r2 of None \<Rightarrow> None | Some (d, r3) \<Rightarrow>
      case matchTime r3 of None \<Rightarrow> None | Some t \<Rightarrow> Some (y, m, d, t))"

text \<open>\<open>parseInt(s, 10)\<close> on a string of decimal digits.\<close>

definition parseInt :: "jsstring \<Rightarrow> int" where
  "parseInt s = foldl (\<lambda>acc c. 10 * acc + (uint c - 48)) 0 s"

definition parseICalDate :: "host \<Rightarrow> jsstring \<Rightarrow> jsdate option" where
  "parseICalDate h dateStr =
     (if dateStr = [] then None
      else
        (case matchDate (stripToColon dateStr) of
           None \<Rightarrow> None
         | Some (y, m, d, t) \<Rightarrow>
             (let year = parseInt y;
                  month = parseInt m - 1;
                  day = parseInt d;
                  hour = (case t of Some (hh, mi, ss, z) \<Rightarrow> parseInt hh | None \<Rightarrow> 0);
                  minute = (case t of Some (hh, mi, ss, z) \<Rightarrow> parseInt mi | None \<Rightarrow> 0);
                  second = (case t of Some (hh, mi, ss, z) \<Rightarrow> parseInt ss | None \<Rightarrow> 0);
                  isUTC = (case t of Some (hh, mi, ss, z) \<Rightarrow> z | None \<Rightarrow> False)
              in if isUTC then Some (dateUTC h year month day hour minute second)
                 else Some (dateLocal h year month day hour minute second))))"

definition getEventDate :: "host \<Rightarrow> event \<Rightarrow> jsdate option" where
  "getEventDate h ev =
     (case map_of (properties ev) (js ''DTSTART'') of
        None \<Rightarrow> None
      | Some dtstart \<Rightarrow> parseICalDate h (prop_value dtstart))"

section \<open>ICalWriter.foldLine\<close>

definition MAX_LINE_LENGTH :: nat where
  "MAX_LINE_LENGTH = 75"

definition isHighSurrogate :: "unit16 \<Rightarrow> bool" where
  "isHighSurrogate c = (0xD800 \<le> c \<and> c \<le> 0xDBFF)"

text \<open>\<open>isContinuationByte(str, pos)\<close>: false at both ends of the string, otherwise
  whether the unit before \<open>pos\<close> is a high surrogate.\<close>

definition isContinuationByte :: "jsstring \<Rightarrow> nat \<Rightarrow> bool" where
  "isContinuationByte str pos =
     (if pos \<le> 0 \<or> pos \<ge> length str then False
      else isHighSurrogate (str ! (pos - 1)))"

text \<open>The inner loop \<open>while (cutPos > 0 && isContinuationByte(remaining, cutPos)) cutPos--\<close>,
  started at \<open>cutPos\<close>.\<close>

fun adjustCut :: "jsstring \<Rightarrow> nat \<Rightarrow> nat" where
  "adjustCut remaining 0 = 0"
| "adjustCut remaining (Suc n) =
     (if isContinuationByte remaining (Suc n) then adjustCut remaining n else Suc n)"

text \<open>The outer loop \<open>while (remaining.length > 0)\<close> over the state
  \<open>(result, remaining, isFirst)\<close>. Nothing in the source bounds the number of
  iterations, so the loop is a partial function: \<open>None\<close> is "never returns".\<close>

partial_function (option) foldLoop ::
  "jsstring list \<Rightarrow> jsstring \<Rightarrow> bool \<Rightarrow> jsstring list option" where
  "foldLoop result remaining isFirst =
     (if length remaining > 0 then
        (let maxLen = (if isFirst then MAX_LINE_LENGTH else MAX_LINE_LENGTH - 1) in
         if length remaining \<le> maxLen then
           Some (result @ [if isFirst then remaining else 0x20 # remaining])
         else
           (let cutPos = adjustCut remaining maxLen;
                chunk = take cutPos remaining
            in foldLoop (result @ [if isFirst then chunk else 0x20 # chunk])
                        (drop cutPos remaining) False))
      else Some result)"

declare foldLoop.simps [code]

definition foldLine :: "jsstring \<Rightarrow> jsstring option" where
  "foldLine line =
     (if length line \<le> MAX_LINE_LENGTH then Some line
      else map_option (joinWith CRLF) (foldLoop [] line True))"

section \<open>ICalWriter.isAllowedProperty\<close>

definition blockedProperties :: "jsstring list" where
  "blockedProperties =
     [js ''X-APPLE-'', js ''X-WR-ALARMUID'', js ''ACKNOWLEDGED'', js ''ATTACH'']"

text \<open>The upper-cased property name of the source's first two branches; \<open>None\<close> is the
  third branch, which returns \<open>false\<close> at once.\<close>

definition propName :: "host \<Rightarrow> jsstring \<Rightarrow> jsstring option" where
  "propName h line =
     (let colonIndex = indexOf line 0x3A;
          semicolonIndex = indexOf line 0x3B
      in case semicolonIndex of
           Some si \<Rightarrow>
             (case colonIndex of
                None \<Rightarrow> Some (toUpperCase h (take si line))
              | Some ci \<Rightarrow>
                  if si < ci then Some (toUpperCase h (take si line))
                  else Some (toUpperCase h (take ci line)))
         | None \<Rightarrow>
             (case colonIndex of
                None \<Rightarrow> None
              | Some ci \<Rightarrow> Some (toUpperCase h (take ci line))))"

definition isAllowedProperty :: "host \<Rightarrow> jsstring \<Rightarrow> bool" where
  "isAllowedProperty h line =
     (case propName h line of
        None \<Rightarrow> False
      | Some name \<Rightarrow>
          list_all (\<lambda>blocked. \<not> (prefix blocked name \<or> name = blocked)) blockedProperties)"

section \<open>ICalWriter.write\<close>

text \<open>\<open>outputLines.push(this.foldLine(line))\<close> for each line in turn.\<close>

fun foldAll :: "jsstring list \<Rightarrow> jsstring list option" where
  "foldAll [] = Some []"
| "foldAll (l # ls) =
     (case foldLine l of
        None \<Rightarrow> None
      | Some f \<Rightarrow> (case foldAll ls of None \<Rightarrow> None | Some fs \<Rightarrow> Some (f # fs)))"

text \<open>The lines of one event that reach \<open>foldLine\<close>: from \<open>_rawLines\<close> when it is not
  empty, from the \<open>raw\<close> fields of \<open>properties\<close> otherwise.\<close>

definition keptLine :: "host \<Rightarrow> bool \<Rightarrow> jsstring \<Rightarrow> bool" where
  "keptLine h cleanMode line =
     (trim line \<noteq> [] \<and> \<not> (cleanMode \<and> \<not> isAllowedProperty h line))"

definition eventSource :: "event \<Rightarrow> jsstring list" where
  "eventSource ev =
     (if rawLines ev \<noteq> [] then rawLines ev else map (\<lambda>(key, prop). prop_raw prop) (properties ev))"

fun writeEvents :: "host \<Rightarrow> bool \<Rightarrow> event list \<Rightarrow> jsstring list option" where
  "writeEvents h cleanMode [] = Some []"
| "writeEvents h cleanMode (ev # evs) =
     (case foldAll (filter (keptLine h cleanMode) (eventSource ev)) of
        None \<Rightarrow> None
      | Some body \<Rightarrow>
          (case writeEvents h cleanMode evs of
             None \<Rightarrow> None
           | Some rest \<Rightarrow> Some (js ''BEGIN:VEVENT'' # body @ js ''END:VEVENT'' # rest)))"

text \<open>The function \<open>write\<close> of the source (named \<open>writeICal\<close> here: \<open>write\<close> is
  reserved).\<close>

definition defaultHeader :: "jsstring list" where
  "defaultHeader = [js ''BEGIN:VCALENDAR'', js ''VERSION:2.0'', js ''PRODID:-//iCAL Splitter//EN'']"

definition writeICal :: "host \<Rightarrow> calendar \<Rightarrow> event list \<Rightarrow> bool \<Rightarrow> jsstring option" where
  "writeICal h cal evs cleanMode =
     (case (if headerLines cal \<noteq> [] then foldAll (headerLines cal) else Some defaultHeader) of
        None \<Rightarrow> None
      | Some header \<Rightarrow>
          (case writeEvents h cleanMode evs of
             None \<Rightarrow> None
           | Some body \<Rightarrow>
               Some (joinWith CRLF (header @ body @ [js ''END:VCALENDAR'']) @ CRLF)))"

section \<open>ICalWriter.filterByDateRange and splitByYear\<close>

text \<open>A bound is \<open>None\<close> when the caller passes \<open>null\<close> or nothing.\<close>

definition inRange :: "host \<Rightarrow> jsdate option \<Rightarrow> jsdate option \<Rightarrow> event \<Rightarrow> bool" where
  "inRange h startDate endDate ev =
     (case getEventDate h ev of
        None \<Rightarrow> True
      | Some date \<Rightarrow>
          if (case startDate of None \<Rightarrow> False | Some s \<Rightarrow> date < s) then False
          else if (case endDate of None \<Rightarrow> False | Some e \<Rightarrow> date > e) then False
          else True)"

definition filterByDateRange ::
  "host \<Rightarrow> event list \<Rightarrow> jsdate option \<Rightarrow> jsdate option \<Rightarrow> event list" where
  "filterByDateRange h evs startDate endDate = filter (inRange h startDate endDate) evs"

text \<open>The keys of the object \<open>byYear\<close>: a year, or the string \<open>'unknown'\<close>.\<close>

datatype yearKey = Year int | Unknown

definition yearOf :: "host \<Rightarrow> event \<Rightarrow> yearKey" where
  "yearOf h ev =
     (case getEventDate h ev of None \<Rightarrow> Unknown | Some date \<Rightarrow> Year (getFullYear h date))"

definition addToYear :: "host \<Rightarrow> (yearKey \<rightharpoonup> event list) \<Rightarrow> event \<Rightarrow> (yearKey \<rightharpoonup> event list)" where
  "addToYear h byYear ev =
     (let year = yearOf h ev;
          bucket = (case byYear year of None \<Rightarrow> [] | Some b \<Rightarrow> b)
      in byYear(year \<mapsto> bucket @ [ev]))"

definition splitByYear :: "host \<Rightarrow> event list \<Rightarrow> (yearKey \<rightharpoonup> event list)" where
  "splitByYear h evs = foldl (addToYear h) Map.empty evs"

section \<open>ICalWriter.splitBySize\<close>

record chunk =
  content :: jsstring
  startDate :: "jsdate option"
  endDate :: "jsdate option"
  eventCount :: nat

definition getHeaderFooterSize :: "calendar \<Rightarrow> int" where
  "getHeaderFooterSize cal =
     int (length (js ''END:VCALENDAR'' @ CRLF)) +
     (if headerLines cal \<noteq> [] then (\<Sum>line\<leftarrow>headerLines cal. int (length line) + 2)
      else int (length (js ''BEGIN:VCALENDAR'' @ CRLF @ js ''VERSION:2.0'' @ CRLF @
                        js ''PRODID:-//iCAL Splitter//EN'' @ CRLF)))"

definition getEventSize :: "event \<Rightarrow> int" where
  "getEventSize ev =
     int (length (js ''BEGIN:VEVENT'' @ CRLF)) + int (length (js ''END:VEVENT'' @ CRLF)) +
     (\<Sum>line\<leftarrow>eventSource ev. int (length line) + 2)"

definition createChunkResult :: "host \<Rightarrow> calendar \<Rightarrow> event list \<Rightarrow> bool \<Rightarrow> chunk option" where
  "createChunkResult h cal evs cleanMode =
     (let dates = sort (concat (map (\<lambda>e. case getEventDate h e of None \<Rightarrow> [] | Some d \<Rightarrow> [d]) evs))
      in case writeICal h cal evs cleanMode of
           None \<Rightarrow> None
         | Some text \<Rightarrow>
             Some \<lparr>content = text,
                   startDate = (if dates \<noteq> [] then Some (hd dates) else None),
                   endDate = (if dates \<noteq> [] then Some (last dates) else None),
                   eventCount = length evs\<rparr>)"

text \<open>The comparator of the sort: newest first, undated events last.\<close>

definition compareEvents :: "host \<Rightarrow> event \<Rightarrow> event \<Rightarrow> int" where
  "compareEvents h a b =
     (case (getEventDate h a, getEventDate h b) of
        (None, None) \<Rightarrow> 0
      | (None, Some dateB) \<Rightarrow> 1
      | (Some dateA, None) \<Rightarrow> -1
      | (Some dateA, Some dateB) \<Rightarrow> dateB - dateA)"

text \<open>\<open>Array.prototype.sort\<close> is stable; with a comparator that orders the elements
  consistently its result is that of a stable insertion sort.\<close>

fun insertBy :: "('a \<Rightarrow> 'a \<Rightarrow> int) \<Rightarrow> 'a \<Rightarrow> 'a list \<Rightarrow> 'a list" where
  "insertBy cmp x [] = [x]"
| "insertBy cmp x (y # ys) = (if cmp x y \<le> 0 then x # y # ys else y # insertBy cmp x ys)"

definition sortBy :: "('a \<Rightarrow> 'a \<Rightarrow> int) \<Rightarrow> 'a list \<Rightarrow> 'a list" where
  "sortBy cmp xs = foldr (insertBy cmp) xs []"

text \<open>The loop over the sorted events, on the state
  \<open>(results, currentEvents, currentSize)\<close>.\<close>

fun splitLoop ::
  "host \<Rightarrow> calendar \<Rightarrow> int \<Rightarrow> bool \<Rightarrow> event list \<Rightarrow> chunk list \<Rightarrow> event list \<Rightarrow> int \<Rightarrow>
     (chunk list \<times> event list \<times> int) option" where
  "splitLoop h cal maxSizeBytes cleanMode [] results currentEvents currentSize =
     Some (results, currentEvents, currentSize)"
| "splitLoop h cal maxSizeBytes cleanMode (ev # evs) results currentEvents currentSize =
     (let eventSize = getEventSize ev in
      if currentSize + eventSize > maxSizeBytes \<and> length currentEvents > 0 then
        (case createChunkResult h cal currentEvents cleanMode of
           None \<Rightarrow> None
         | Some c \<Rightarrow>
             splitLoop h cal maxSizeBytes cleanMode evs (results @ [c]) [ev]
               (getHeaderFooterSize cal + eventSize))
      else
        splitLoop h cal maxSizeBytes cleanMode evs results (currentEvents @ [ev])
          (currentSize + eventSize))"

definition splitBySize ::
  "host \<Rightarrow> calendar \<Rightarrow> event list \<Rightarrow> int \<Rightarrow> bool \<Rightarrow> chunk list option" where
  "splitBySize h cal evs maxSizeBytes cleanMode =
     (case splitLoop h cal maxSizeBytes cleanMode (sortBy (compareEvents h) evs) []
             [] (getHeaderFooterSize cal) of
        None \<Rightarrow> None
      | Some (results, currentEvents, currentSize) \<Rightarrow>
          if length currentEvents > 0 then
            (case createChunkResult h cal currentEvents cleanMode of
               None \<Rightarrow> None
             | Some c \<Rightarrow> Some (results @ [c]))
          else Some results)"

section \<open>A host for evaluating examples\<close>

text \<open>
  The date arithmetic of ECMAScript (\<open>MakeDay\<close>, \<open>MakeTime\<close>, \<open>MakeDate\<close>,
  \<open>YearFromTime\<close>) on a machine whose local time zone is UTC, and \<open>toUpperCase\<close>
  on the ASCII letters. The examples below use ASCII names only.
\<close>

definition dayFromYear :: "int \<Rightarrow> int" where
  "dayFromYear y =
     365 * (y - 1970) + (y - 1969) div 4 - (y - 1901) div 100 + (y - 1601) div 400"

definition isLeapYear :: "int \<Rightarrow> bool" where
  "isLeapYear y = (y mod 4 = 0 \<and> (y mod 100 \<noteq> 0 \<or> y mod 400 = 0))"

definition daysBeforeMonth :: "bool \<Rightarrow> int \<Rightarrow> int" where
  "daysBeforeMonth leap m =
     (\<Sum>d\<leftarrow>take (nat m) [31, if leap then 29 else 28, 31, 30, 31, 30, 31, 31, 30, 31, 30, 31]. d)"

definition makeDay :: "int \<Rightarrow> int \<Rightarrow> int \<Rightarrow> int" where
  "makeDay year month date =
     (let ym = year + month div 12; mn = month mod 12
      in dayFromYear ym + daysBeforeMonth (isLeapYear ym) mn + date - 1)"

definition utcTime :: "int \<Rightarrow> int \<Rightarrow> int \<Rightarrow> int \<Rightarrow> int \<Rightarrow> int \<Rightarrow> jsdate" where
  "utcTime year month date hours minutes seconds =
     (let yr = (if 0 \<le> year \<and> year \<le> 99 then 1900 + year else year)
      in makeDay yr month date * 86400000 + hours * 3600000 + minutes * 60000 + seconds * 1000)"

text \<open>The year of a day number, by the usual computation on 400-year eras that begin
  on 1 March.\<close>

definition yearFromTime :: "jsdate \<Rightarrow> int" where
  "yearFromTime t =
     (let z = t div 86400000 + 719468;
          era = z div 146097;
          doe = z mod 146097;
          yoe = (doe - doe div 1460 + doe div 36524 - doe div 146096) div 365;
          doy = doe - (365 * yoe + yoe div 4 - yoe div 100);
          mp = (5 * doy + 2) div 153
      in yoe + era * 400 + (if mp < 10 then 0 else 1))"

definition asciiUpper :: "jsstring \<Rightarrow> jsstring" where
  "asciiUpper s = map (\<lambda>c. if 0x61 \<le> c \<and> c \<le> 0x7A then c - 0x20 else c) s"

definition utcHost :: host where
  "utcHost = \<lparr>dateUTC = utcTime, dateLocal = utcTime, getFullYear = yearFromTime,
              toUpperCase = asciiUpper\<rparr>"

section \<open>Notions used to state the properties\<close>

text \<open>The limit of the current iteration of \<open>foldLine\<close>, and the segment it pushes.\<close>

definition maxLen :: "bool \<Rightarrow> nat" where
  "maxLen isFirst = (if isFirst then 75 else 74)"

definition pushSeg :: "bool \<Rightarrow> jsstring \<Rightarrow> jsstring" where
  "pushSeg isFirst s = (if isFirst then s else 0x20 # s)"

text \<open>The physical lines made of the segments \<open>ss\<close>: every segment but the first of a
  line is prefixed with one space.\<close>

fun segLines :: "bool \<Rightarrow> jsstring list \<Rightarrow> jsstring list" where
  "segLines isFirst [] = []"
| "segLines isFirst (s # ss) = pushSeg isFirst s # map ((#) 0x20) ss"

text \<open>No two high surrogates in a row: true of every well-formed UTF-16 text, where a
  high surrogate is followed by a low one.\<close>

fun noAdjHigh :: "jsstring \<Rightarrow> bool" where
  "noAdjHigh (a # b # xs) = (\<not> (isHighSurrogate a \<and> isHighSurrogate b) \<and> noAdjHigh (b # xs))"
| "noAdjHigh xs = True"

text \<open>The property name in the words of the specification: the text before the first
  \<open>;\<close> or \<open>:\<close>, whichever comes first. A name is blocked when, in upper case, it
  equals or starts with an entry of the deny list.\<close>

definition specPropertyName :: "jsstring \<Rightarrow> jsstring" where
  "specPropertyName line = takeWhile (\<lambda>c. c \<noteq> 0x3B \<and> c \<noteq> 0x3A) line"

definition hasSeparator :: "jsstring \<Rightarrow> bool" where
  "hasSeparator line = (0x3A \<in> set line \<or> 0x3B \<in> set line)"

definition nameBlocked :: "host \<Rightarrow> jsstring \<Rightarrow> bool" where
  "nameBlocked h line =
     (\<exists>blocked \<in> set blockedProperties. prefix blocked (toUpperCase h (specPropertyName line)))"

text \<open>The date grammar in the words of the specification: \<open>YYYYMMDD\<close>, optionally
  followed by \<open>T\<close> and \<open>HHMMSS\<close>, optionally followed by \<open>Z\<close>. \<open>fieldAt i n s\<close> is the
  number written in the \<open>n\<close> digits of \<open>s\<close> from position \<open>i\<close>.\<close>

definition allDigits :: "jsstring \<Rightarrow> bool" where
  "allDigits s = list_all isDigit s"

definition dateGrammar :: "jsstring \<Rightarrow> bool" where
  "dateGrammar s =
     (let date = take 8 s; time = drop 8 s
      in length date = 8 \<and> allDigits date \<and>
         (time = [] \<or>
          (let hms = take 6 (drop 1 time); z = drop 7 time
           in take 1 time = [0x54] \<and> length hms = 6 \<and> allDigits hms \<and> (z = [] \<or> z = [0x5A]))))"

definition fieldAt :: "nat \<Rightarrow> nat \<Rightarrow> jsstring \<Rightarrow> int" where
  "fieldAt i n s = parseInt (take n (drop i s))"

text \<open>Stripping in the words of the specification: everything up to and including the
  final colon of the string.\<close>

definition stripAfterFinalColon :: "jsstring \<Rightarrow> jsstring" where
  "stripAfterFinalColon s = (case lastIndexOf s 0x3A of None \<Rightarrow> s | Some i \<Rightarrow> drop (Suc i) s)"

text \<open>The lines of a text that precede its first \<open>BEGIN:VEVENT\<close>, and those of them
  that \<open>parse\<close> keeps in the header.\<close>

definition headerKept :: "jsstring \<Rightarrow> bool" where
  "headerKept l = (l \<noteq> js ''END:VEVENT'' \<and> l \<noteq> js ''END:VCALENDAR'')"

definition linesBeforeFirstEvent :: "jsstring \<Rightarrow> jsstring list" where
  "linesBeforeFirstEvent icsContent =
     takeWhile (\<lambda>l. l \<noteq> js ''BEGIN:VEVENT'') (map trim (contentLines icsContent))"

text \<open>A calendar with a to-do that carries an alarm, before its only event.\<close>

definition todoAlarm :: jsstring where
  "todoAlarm = js ''BEGIN:VCALENDAR'' @ CRLF @ js ''BEGIN:VTODO'' @ CRLF @
     js ''BEGIN:VALARM'' @ CRLF @ js ''TRIGGER:-PT15M'' @ CRLF @ js ''END:VALARM'' @ CRLF @
     js ''END:VTODO'' @ CRLF @ js ''BEGIN:VEVENT'' @ CRLF @ js ''END:VEVENT'' @ CRLF @
     js ''END:VCALENDAR'' @ CRLF"

text \<open>The test of the date filter in the words of the specification: an undated event
  is kept; a dated one is kept when its date lies within the bounds, ends included,
  an absent bound being no bound.\<close>

definition withinBounds :: "jsdate option \<Rightarrow> jsdate option \<Rightarrow> jsdate \<Rightarrow> bool" where
  "withinBounds lo hi d =
     ((case lo of None \<Rightarrow> True | Some a \<Rightarrow> a \<le> d) \<and>
      (case hi of None \<Rightarrow> True | Some b \<Rightarrow> d \<le> b))"

definition keptByRange :: "host \<Rightarrow> jsdate option \<Rightarrow> jsdate option \<Rightarrow> event \<Rightarrow> bool" where
  "keptByRange h lo hi ev =
     (case getEventDate h ev of None \<Rightarrow> True | Some d \<Rightarrow> withinBounds lo hi d)"

text \<open>The event that \<open>parse\<close> builds from the single line \<open>DTSTART:v\<close>, and the one
  it builds from the single line \<open>SUMMARY:x\<close>.\<close>

definition datedEvent :: "jsstring \<Rightarrow> event" where
  "datedEvent v =
     \<lparr>properties = [(js ''DTSTART'',
        \<lparr>prop_value = v, prop_parameters = [], prop_raw = js ''DTSTART:'' @ v\<rparr>)],
      rawLines = [js ''DTSTART:'' @ v]\<rparr>"

definition undatedEvent :: event where
  "undatedEvent =
     \<lparr>properties = [(js ''SUMMARY'',
        \<lparr>prop_value = js ''x'', prop_parameters = [], prop_raw = js ''SUMMARY:x''\<rparr>)],
      rawLines = [js ''SUMMARY:x'']\<rparr>"

text \<open>Four events: 1 January 2023, undated, 1 January 2024 and 15 June 2023.\<close>

definition fourEvents :: "event list" where
  "fourEvents =
     [datedEvent (js ''20230101''), undatedEvent, datedEvent (js ''20240101''),
      datedEvent (js ''20230615T120000Z'')]"

text \<open>Calendars and events all of whose lines are free of two high surrogates in a
  row: \<open>foldLine\<close> returns on each of their lines.\<close>

definition foldableEvents :: "event list \<Rightarrow> bool" where
  "foldableEvents evs = (\<forall>e\<in>set evs. \<forall>l\<in>set (eventSource e). noAdjHigh l)"

definition foldableHeader :: "calendar \<Rightarrow> bool" where
  "foldableHeader cal = (\<forall>l\<in>set (headerLines cal). noAdjHigh l)"

text \<open>A text with one event, whose only line is 76 times the unit \<open>U+D800\<close>.\<close>

definition surrogateCalendar :: jsstring where
  "surrogateCalendar =
     js ''BEGIN:VEVENT'' @ CRLF @ replicate 76 0xD800 @ CRLF @ js ''END:VEVENT'' @ CRLF"

text \<open>The logical lines of a text, as the loop of \<open>parse\<close> sees them: line terminators
  normalised, continuation lines unfolded, blank lines dropped, each line trimmed. A
  good line is not empty, holds no CR or LF, and is its own trimming.\<close>

definition logicalLines :: "jsstring \<Rightarrow> jsstring list" where
  "logicalLines icsContent = map trim (contentLines icsContent)"

definition goodLine :: "jsstring \<Rightarrow> bool" where
  "goodLine l = (l \<noteq> [] \<and> 0x0D \<notin> set l \<and> 0x0A \<notin> set l \<and> trim l = l)"

text \<open>A well-formed calendar text is a header, then event blocks, then
  \<open>END:VCALENDAR\<close>. A header line is any line but the three markers that \<open>parse\<close>
  handles before looking at its state; a body line is moreover not a marker of an
  alarm.\<close>

definition eventBlock :: "jsstring list \<Rightarrow> jsstring list" where
  "eventBlock b = js ''BEGIN:VEVENT'' # b @ [js ''END:VEVENT'']"

definition headerLine :: "jsstring \<Rightarrow> bool" where
  "headerLine l =
     (l \<noteq> js ''BEGIN:VEVENT'' \<and> l \<noteq> js ''END:VEVENT'' \<and> l \<noteq> js ''END:VCALENDAR'')"

definition bodyLine :: "jsstring \<Rightarrow> bool" where
  "bodyLine l =
     (l \<noteq> js ''BEGIN:VEVENT'' \<and> l \<noteq> js ''END:VEVENT'' \<and> l \<noteq> js ''END:VCALENDAR''
      \<and> l \<noteq> js ''BEGIN:VALARM'' \<and> l \<noteq> js ''END:VALARM'')"

text \<open>The raw lines recorded in the \<open>properties\<close> of an event.\<close>

definition rawsOf :: "(jsstring \<times> eprop) list \<Rightarrow> jsstring set" where
  "rawsOf ps = (\<lambda>(k, p). prop_raw p) ` set ps"

text \<open>A list of lines as a text: each line followed by CRLF.\<close>

definition crlfLines :: "jsstring list \<Rightarrow> jsstring" where
  "crlfLines ls = concat (map (\<lambda>l. l @ CRLF) ls)"

text \<open>A small calendar, with a folded line and mixed line terminators; and one whose
  event has an alarm.\<close>

definition smallCalendar :: jsstring where
  "smallCalendar = js ''BEGIN:VCALENDAR'' @ [0x0A] @ js ''VERSION:2.0'' @ CRLF @
     js ''BEGIN:VEVENT'' @ [0x0D] @ js ''SUMM'' @ CRLF @ js '' ARY:x'' @ CRLF @
     js ''END:VEVENT'' @ CRLF @ js ''END:VCALENDAR'' @ CRLF"

definition alarmCalendar :: jsstring where
  "alarmCalendar = js ''BEGIN:VCALENDAR'' @ CRLF @ js ''BEGIN:VEVENT'' @ CRLF @
     js ''SUMMARY:x'' @ CRLF @ js ''BEGIN:VALARM'' @ CRLF @ js ''TRIGGER:-PT15M'' @ CRLF @
     js ''END:VALARM'' @ CRLF @ js ''END:VEVENT'' @ CRLF @ js ''END:VCALENDAR'' @ CRLF"

text \<open>A balanced document, read line by line: \<open>BEGIN:VCALENDAR\<close> opens a calendar
  outside any, \<open>BEGIN:VEVENT\<close> opens an event inside a calendar and outside any event,
  each \<open>END\<close> closes what is open, and nothing is left open at the end. The state is
  0 outside, 1 in a calendar, 2 in an event. Markers are compared as the source
  compares them, unit by unit.\<close>

fun balancedFrom :: "nat \<Rightarrow> jsstring list \<Rightarrow> bool" where
  "balancedFrom d [] = (d = 0)"
| "balancedFrom d (l # ls) =
     (if l = js ''BEGIN:VCALENDAR'' then d = 0 \<and> balancedFrom 1 ls
      else if l = js ''END:VCALENDAR'' then d = 1 \<and> balancedFrom 0 ls
      else if l = js ''BEGIN:VEVENT'' then d = 1 \<and> balancedFrom 2 ls
      else if l = js ''END:VEVENT'' then d = 2 \<and> balancedFrom 1 ls
      else balancedFrom d ls)"

definition balanced :: "jsstring list \<Rightarrow> bool" where
  "balanced ls = balancedFrom 0 ls"

definition isMarker :: "jsstring \<Rightarrow> bool" where
  "isMarker l =
     (l = js ''BEGIN:VCALENDAR'' \<or> l = js ''END:VCALENDAR'' \<or> l = js ''BEGIN:VEVENT''
      \<or> l = js ''END:VEVENT'')"

text \<open>A physical line of the output: not empty, without CR or LF. The physical lines
  \<open>ps\<close> of a folded line \<open>l\<close> are in order when a marker is left as it is and no
  other line gives a marker.\<close>

definition plainLine :: "jsstring \<Rightarrow> bool" where
  "plainLine p = (p \<noteq> [] \<and> 0x0D \<notin> set p \<and> 0x0A \<notin> set p)"

definition physOK :: "jsstring \<Rightarrow> jsstring list \<Rightarrow> bool" where
  "physOK l ps =
     (ps \<noteq> [] \<and> (\<forall>p\<in>set ps. plainLine p) \<and>
      (if isMarker l then ps = [l] else \<forall>p\<in>set ps. \<not> isMarker p))"

text \<open>What holds of every event that \<open>parse\<close> returns, and of the state of its loop.\<close>

definition eventOK :: "event \<Rightarrow> bool" where
  "eventOK e =
     ((\<forall>l\<in>set (rawLines e). goodLine l \<and> bodyLine l) \<and>
      rawsOf (properties e) \<subseteq> set (rawLines e))"

definition stateOK :: "pstate \<Rightarrow> bool" where
  "stateOK st =
     ((\<forall>e\<in>set (events (calendarOf st)). eventOK e) \<and>
      (\<forall>l\<in>set (currentEventLines st). goodLine l \<and> bodyLine l) \<and>
      (\<forall>ps. currentEvent st = Some ps \<longrightarrow> rawsOf ps \<subseteq> set (currentEventLines st)))"

text \<open>A text whose header lacks \<open>BEGIN:VCALENDAR\<close>.\<close>

definition noBeginCalendar :: jsstring where
  "noBeginCalendar = js ''VERSION:2.0'' @ CRLF @ js ''BEGIN:VEVENT'' @ CRLF @
     js ''SUMMARY:x'' @ CRLF @ js ''END:VEVENT'' @ CRLF"

text \<open>What \<open>write\<close> puts out for a line, for the header and for an event. A logical line
  \<open>l\<close> is written as the physical lines \<open>ps\<close> when \<open>foldLine l\<close> is these lines joined by
  CRLF, each of them non-empty and free of CR and LF, a marker line being written as
  itself and no other line giving a marker. The header written is the default header
  when the calendar has no header line, and otherwise the physical lines of its header
  lines, in order. The body written for an event is made of the physical lines of the
  lines of its source that the mode keeps, in order.\<close>

definition foldsTo :: "jsstring \<Rightarrow> jsstring list \<Rightarrow> bool" where
  "foldsTo l ps = (foldLine l = Some (joinWith CRLF ps) \<and> physOK l ps)"

definition writtenHeader :: "calendar \<Rightarrow> jsstring list \<Rightarrow> bool" where
  "writtenHeader cal hs =
     (if headerLines cal = [] then hs = defaultHeader
      else \<exists>pss. list_all2 foldsTo (headerLines cal) pss \<and> hs = concat pss)"

definition writtenBody :: "host \<Rightarrow> bool \<Rightarrow> event \<Rightarrow> jsstring list \<Rightarrow> bool" where
  "writtenBody h cleanMode ev b =
     (\<exists>pss. list_all2 foldsTo (filter (keptLine h cleanMode) (eventSource ev)) pss \<and>
            b = concat pss)"

section \<open>foldLine: the cut position and the loop\<close>

lemma adjustCut_le: "adjustCut r n \<le> n"
  by (induction n) auto

lemma adjustCut_all_high:
  "n < length r \<Longrightarrow> (\<forall>j<n. isHighSurrogate (r ! j)) \<Longrightarrow> adjustCut r n = 0"
  by (induction n) (auto simp: isContinuationByte_def)

lemma adjustCut_zero_mono: "adjustCut r (Suc n) = 0 \<Longrightarrow> adjustCut r n = 0"
  by (simp split: if_splits)

lemma foldLoop_nil: "foldLoop res [] b = Some res"
  by (subst foldLoop.simps) simp

lemma foldLoop_short:
  "rem \<noteq> [] \<Longrightarrow> length rem \<le> maxLen b \<Longrightarrow> foldLoop res rem b = Some (res @ [pushSeg b rem])"
  by (subst foldLoop.simps)
     (auto simp add: MAX_LINE_LENGTH_def maxLen_def pushSeg_def split: if_splits)

lemma foldLoop_long:
  "maxLen b < length rem \<Longrightarrow>
   foldLoop res rem b =
     foldLoop (res @ [pushSeg b (take (adjustCut rem (maxLen b)) rem)])
       (drop (adjustCut rem (maxLen b)) rem) False"
  by (subst foldLoop.simps)
     (auto simp add: MAX_LINE_LENGTH_def maxLen_def pushSeg_def Let_def)

text \<open>A cut at position 0 leaves the state of the loop unchanged but for \<open>result\<close>: the
  loop cannot return from it.\<close>

lemma foldLoop_cut_pos:
  assumes "foldLoop res rem b = Some out"
  shows "\<not> (maxLen b < length rem \<and> adjustCut rem (maxLen b) = 0)"
proof (induct rule: foldLoop.raw_induct [OF _ assms])
  case (1 loop res rem b out)
  show ?case
  proof
    assume bad: "maxLen b < length rem \<and> adjustCut rem (maxLen b) = 0"
    with 1(2) have "loop (res @ [pushSeg b []]) rem False = Some out"
      by (auto simp: MAX_LINE_LENGTH_def maxLen_def pushSeg_def Let_def split: if_splits)
    from 1(1)[OF this] have "\<not> (74 < length rem \<and> adjustCut rem 74 = 0)"
      by (simp add: maxLen_def)
    moreover have "adjustCut rem 74 = 0"
      using bad adjustCut_zero_mono[of rem 74] by (cases b) (simp_all add: maxLen_def)
    ultimately show False using bad by (simp add: maxLen_def split: if_splits)
  qed
qed

lemma foldLoop_stuck:
  "maxLen b < length rem \<Longrightarrow> adjustCut rem (maxLen b) = 0 \<Longrightarrow> foldLoop res rem b = None"
  using foldLoop_cut_pos[of res rem b] by (cases "foldLoop res rem b") auto

lemma foldLine_high_run:
  assumes "75 < length line" and "\<forall>j<75. isHighSurrogate (line ! j)"
  shows "foldLine line = None"
proof -
  have "adjustCut line 75 = 0" using assms by (intro adjustCut_all_high) auto
  then have "foldLoop [] line True = None"
    using assms(1) by (intro foldLoop_stuck) (simp_all add: maxLen_def)
  then show ?thesis using assms(1) by (simp add: foldLine_def MAX_LINE_LENGTH_def)
qed

subsection \<open>Lines without two high surrogates in a row\<close>

lemma noAdjHigh_nth:
  "noAdjHigh xs \<Longrightarrow> Suc i < length xs \<Longrightarrow>
   \<not> (isHighSurrogate (xs ! i) \<and> isHighSurrogate (xs ! Suc i))"
proof (induction xs arbitrary: i rule: noAdjHigh.induct)
  case (1 a b xs)
  then show ?case by (cases i) auto
qed auto

lemma noAdjHigh_tl: "noAdjHigh (x # xs) \<Longrightarrow> noAdjHigh xs"
  by (cases xs) auto

lemma noAdjHigh_drop: "noAdjHigh xs \<Longrightarrow> noAdjHigh (drop n xs)"
proof (induction n arbitrary: xs)
  case (Suc n)
  then show ?case by (cases xs) (auto dest: noAdjHigh_tl)
qed simp

lemma adjustCut_noAdj:
  assumes "noAdjHigh r"
  shows "Suc n \<le> adjustCut r (Suc (Suc n))"
proof (cases "isContinuationByte r (Suc (Suc n))")
  case True
  then have l: "Suc (Suc n) < length r" and h: "isHighSurrogate (r ! Suc n)"
    by (auto simp: isContinuationByte_def split: if_splits)
  from noAdjHigh_nth[OF assms, of n] l h have "\<not> isHighSurrogate (r ! n)" by simp
  then have "\<not> isContinuationByte r (Suc n)"
    using l by (simp add: isContinuationByte_def)
  with True show ?thesis by simp
next
  case False
  then show ?thesis by simp
qed

lemma adjustCut_noAdj_maxLen:
  assumes "noAdjHigh r"
  shows "maxLen b - 1 \<le> adjustCut r (maxLen b)"
proof -
  have "maxLen b = Suc (Suc (maxLen b - 2))" by (simp add: maxLen_def)
  then have "Suc (maxLen b - 2) \<le> adjustCut r (maxLen b)"
    using adjustCut_noAdj[OF assms, of "maxLen b - 2"] by metis
  then show ?thesis by simp
qed

lemma foldLoop_returns:
  "noAdjHigh rem \<Longrightarrow> \<exists>out. foldLoop res rem b = Some out"
proof (induction "length rem" arbitrary: res rem b rule: less_induct)
  case less
  show ?case
  proof (cases "length rem \<le> maxLen b")
    case True
    then show ?thesis
      by (cases "rem = []") (simp_all add: foldLoop_nil foldLoop_short)
  next
    case False
    have "0 < adjustCut rem (maxLen b)"
      using adjustCut_noAdj_maxLen[OF less.prems, of b] by (simp add: maxLen_def split: if_splits)
    with False have "length (drop (adjustCut rem (maxLen b)) rem) < length rem" by simp
    from less.hyps[OF this noAdjHigh_drop[OF less.prems]] False
    show ?thesis by (simp add: foldLoop_long)
  qed
qed

text \<open>What the loop returns, when it returns: the remaining text cut into non-empty
  segments within the limits.\<close>

lemma foldLoop_segments:
  "foldLoop res rem b = Some out \<Longrightarrow>
   \<exists>ss. out = res @ segLines b ss \<and> concat ss = rem
           \<and> (\<forall>s\<in>set ss. s \<noteq> [] \<and> length s \<le> maxLen b)
           \<and> (\<forall>s\<in>set (tl ss). length s \<le> 74)
           \<and> (maxLen b < length rem \<longrightarrow> ss \<noteq> [] \<and> hd ss = take (adjustCut rem (maxLen b)) rem)"
proof (induction "length rem" arbitrary: res rem b out rule: less_induct)
  case less
  show ?case
  proof (cases "length rem \<le> maxLen b")
    case True
    show ?thesis
    proof (cases "rem = []")
      case True
      with less.prems show ?thesis
        by (intro exI[of _ "[]"]) (simp add: foldLoop_nil)
    next
      case False
      with True less.prems show ?thesis
        by (intro exI[of _ "[rem]"]) (simp add: foldLoop_short)
    qed
  next
    case False
    define c where "c = adjustCut rem (maxLen b)"
    from foldLoop_cut_pos[OF less.prems] False have cpos: "0 < c"
      by (simp add: c_def)
    have cle: "c \<le> maxLen b" unfolding c_def by (rule adjustCut_le)
    from False less.prems
    have call: "foldLoop (res @ [pushSeg b (take c rem)]) (drop c rem) False = Some out"
      by (simp add: foldLoop_long c_def)
    from cpos False have "length (drop c rem) < length rem" by simp
    from less.hyps[OF this call] obtain ss where
      ss: "out = (res @ [pushSeg b (take c rem)]) @ segLines False ss"
          "concat ss = drop c rem"
          "\<forall>s\<in>set ss. s \<noteq> [] \<and> length s \<le> 74"
      by (auto simp: maxLen_def)
    have "segLines False ss = map ((#) 0x20) ss" by (cases ss) (simp_all add: pushSeg_def)
    with ss(1) have "out = res @ segLines b (take c rem # ss)"
      by simp
    moreover have "concat (take c rem # ss) = rem" using ss(2) by simp
    moreover have "\<forall>s\<in>set (take c rem # ss). s \<noteq> [] \<and> length s \<le> maxLen b"
      using ss(3) cpos cle False by (auto simp: maxLen_def)
    moreover have "\<forall>s\<in>set (tl (take c rem # ss)). length s \<le> 74" using ss(3) by simp
    moreover have "hd (take c rem # ss) = take (adjustCut rem (maxLen b)) rem"
      by (simp add: c_def)
    ultimately show ?thesis by blast
  qed
qed

section \<open>Claims about foldLine\<close>

text \<open>
  C10 (termination of \<open>foldLine\<close>). The claim is that the cut position is at least 1 in
  every iteration, so that the loop ends on every string. It fails: on a line of more
  than 75 units that begins with 75 high surrogates, the inner loop walks the cut
  position of the first iteration back to 0, the segment pushed is empty, what remains
  of the line is unchanged, and \<open>foldLine\<close> never returns.
\<close>

theorem foldLine_cut_zero_diverges:
  assumes "75 < length line" and "\<forall>j<75. isHighSurrogate (line ! j)"
  shows "adjustCut line (maxLen True) = 0 \<and> take (adjustCut line (maxLen True)) line = []
         \<and> drop (adjustCut line (maxLen True)) line = line \<and> foldLine line = None"
proof -
  have "adjustCut line 75 = 0" using assms by (intro adjustCut_all_high) auto
  with foldLine_high_run[OF assms] show ?thesis by (simp add: maxLen_def)
qed

theorem foldLine_cut_zero_diverges_witness:
  "75 < length (replicate 76 (0xD800 :: unit16))
   \<and> isHighSurrogate 0xD800
   \<and> adjustCut (replicate 76 0xD800) (maxLen True) = 0
   \<and> foldLine (replicate 76 0xD800) = None"
proof -
  have l: "75 < length (replicate 76 (0xD800 :: unit16))" by simp
  have h: "\<forall>j<75. isHighSurrogate (replicate 76 (0xD800 :: unit16) ! j)"
    by (simp add: isHighSurrogate_def)
  from foldLine_cut_zero_diverges[OF l h] l show ?thesis
    by (simp add: isHighSurrogate_def)
qed

text \<open>
  C2 (segments of a folded line). A line of at most 75 units is returned as it is, and
  a longer line on which \<open>foldLine\<close> returns is cut as the claim says (lemmas
  \<open>foldLine_short_id\<close>, \<open>foldLine_long_segments\<close> and \<open>foldLine_unfold\<close> below). The claim is
  about every longer line, though, and on this one of 82 units, 75 high surrogates
  followed by \<open>SUMMARY\<close>, \<open>foldLine\<close> produces no segments at all: it does not return.
\<close>

theorem foldLine_long_line_no_segments:
  "length (replicate 75 (0xDBFF :: unit16) @ js ''SUMMARY'') = 82
   \<and> foldLine (replicate 75 0xDBFF @ js ''SUMMARY'') = None"
proof -
  have "\<forall>j<75. isHighSurrogate ((replicate 75 (0xDBFF :: unit16) @ js ''SUMMARY'') ! j)"
    by (simp add: nth_append isHighSurrogate_def)
  then have "foldLine (replicate 75 0xDBFF @ js ''SUMMARY'') = None"
    by (intro foldLine_high_run) (simp_all add: js_def)
  then show ?thesis by (simp add: js_def)
qed

subsection \<open>What foldLine does when it returns\<close>

text \<open>A line of at most 75 units is returned unchanged. A longer line, when \<open>foldLine\<close>
  returns, is cut into a first segment of at most 75 units and further segments of at
  most 74, none empty, each of the latter prefixed with one space, joined by CRLF; the
  segments put together are the line, and the unfolding steps of \<open>parse\<close> give the
  line back when it holds no CR and no LF. \<open>foldLine\<close> returns on every line without
  two high surrogates in a row.\<close>

lemma foldLine_short_id: "length line \<le> 75 \<Longrightarrow> foldLine line = Some line"
  by (simp add: foldLine_def MAX_LINE_LENGTH_def)

lemma foldLine_returns: "noAdjHigh line \<Longrightarrow> \<exists>out. foldLine line = Some out"
  using foldLoop_returns[of line "[]" True] by (auto simp: foldLine_def)

lemma segLines_True: "segLines True (s # ss) = s # map ((#) 0x20) ss"
  by (simp add: pushSeg_def)

lemma foldLine_long_segments:
  assumes "75 < length line" and "foldLine line = Some out"
  shows "\<exists>s ss. out = joinWith CRLF (s # map ((#) 0x20) ss) \<and> s @ concat ss = line
           \<and> s = take (adjustCut line 75) line
           \<and> s \<noteq> [] \<and> length s \<le> 75 \<and> (\<forall>t\<in>set ss. t \<noteq> [] \<and> length t \<le> 74)"
proof -
  from assms obtain segs where l: "foldLoop [] line True = Some segs"
    and o: "out = joinWith CRLF segs"
    by (auto simp: foldLine_def MAX_LINE_LENGTH_def)
  from foldLoop_segments[OF l] assms(1) obtain ss0 where
    s: "segs = segLines True ss0" "concat ss0 = line"
       "\<forall>s\<in>set ss0. s \<noteq> [] \<and> length s \<le> 75"
       "\<forall>s\<in>set (tl ss0). length s \<le> 74"
       "ss0 \<noteq> []" "hd ss0 = take (adjustCut line 75) line"
    by (auto simp: maxLen_def)
  then obtain s ss where c: "ss0 = s # ss" by (cases ss0) auto
  with s o show ?thesis
    by (intro exI[of _ s] exI[of _ ss]) (auto simp: pushSeg_def)
qed

lemma joinWith_segments:
  "joinWith sep (s # map ((#) c) ss) = s @ concat (map (\<lambda>t. sep @ c # t) ss)"
  by (induction ss arbitrary: s) auto

lemma replaceCRLF_no_CR: "0x0D \<notin> set a \<Longrightarrow> replaceCRLF a = a"
  by (induction a rule: replaceCRLF.induct) auto

lemma replaceCRLF_append:
  "0x0D \<notin> set a \<Longrightarrow> replaceCRLF (a @ 0x0D # 0x0A # rest) = a @ 0x0A # replaceCRLF rest"
proof (induction a)
  case (Cons x a)
  then obtain d cs where "a @ 0x0D # 0x0A # rest = d # cs" by (cases a) auto
  with Cons show ?case by auto
qed simp

lemma replaceCRLF_segments:
  "0x0D \<notin> set s \<Longrightarrow> \<forall>t\<in>set ss. 0x0D \<notin> set t \<Longrightarrow>
   replaceCRLF (s @ concat (map (\<lambda>t. CRLF @ 0x20 # t) ss)) =
     s @ concat (map (\<lambda>t. 0x0A # 0x20 # t) ss)"
proof (induction ss arbitrary: s)
  case Nil
  then show ?case by (simp add: replaceCRLF_no_CR)
next
  case (Cons t ss)
  have "replaceCRLF (s @ 0x0D # 0x0A # (0x20 # t) @ concat (map (\<lambda>t. CRLF @ 0x20 # t) ss)) =
        s @ 0x0A # replaceCRLF ((0x20 # t) @ concat (map (\<lambda>t. CRLF @ 0x20 # t) ss))"
    using Cons.prems by (intro replaceCRLF_append) simp
  moreover have "replaceCRLF ((0x20 # t) @ concat (map (\<lambda>t. CRLF @ 0x20 # t) ss)) =
        (0x20 # t) @ concat (map (\<lambda>t. 0x0A # 0x20 # t) ss)"
    using Cons.prems by (intro Cons.IH) auto
  ultimately show ?case by (simp add: CRLF_def)
qed

lemma replaceCR_no_CR: "0x0D \<notin> set a \<Longrightarrow> replaceCR a = a"
  by (induction a) (auto simp: replaceCR_def)

lemma unfoldContent_no_LF: "0x0A \<notin> set a \<Longrightarrow> unfoldContent a = a"
  by (induction a rule: unfoldContent.induct) auto

lemma unfoldContent_append:
  "0x0A \<notin> set a \<Longrightarrow> unfoldContent (a @ 0x0A # 0x20 # rest) = a @ unfoldContent rest"
proof (induction a)
  case (Cons x a)
  then obtain d cs where "a @ 0x0A # 0x20 # rest = d # cs" by (cases a) auto
  with Cons show ?case by auto
qed simp

lemma unfoldContent_segments:
  "0x0A \<notin> set s \<Longrightarrow> \<forall>t\<in>set ss. 0x0A \<notin> set t \<Longrightarrow>
   unfoldContent (s @ concat (map (\<lambda>t. 0x0A # 0x20 # t) ss)) = s @ concat ss"
proof (induction ss arbitrary: s)
  case Nil
  then show ?case by (simp add: unfoldContent_no_LF)
next
  case (Cons t ss)
  have "unfoldContent (s @ 0x0A # 0x20 # t @ concat (map (\<lambda>t. 0x0A # 0x20 # t) ss)) =
        s @ unfoldContent (t @ concat (map (\<lambda>t. 0x0A # 0x20 # t) ss))"
    using Cons.prems by (intro unfoldContent_append) simp
  with Cons.IH[of t] Cons.prems show ?case by simp
qed

lemma foldLine_unfold:
  assumes "foldLine line = Some out" and "0x0D \<notin> set line" and "0x0A \<notin> set line"
  shows "unfoldContent (replaceCR (replaceCRLF out)) = line"
proof (cases "length line \<le> 75")
  case True
  with assms have "out = line" by (simp add: foldLine_short_id)
  with assms show ?thesis
    by (simp add: replaceCRLF_no_CR replaceCR_no_CR unfoldContent_no_LF)
next
  case False
  with foldLine_long_segments[OF _ assms(1)] obtain s ss where
    o: "out = joinWith CRLF (s # map ((#) 0x20) ss)" and c: "s @ concat ss = line"
    by auto
  from c assms have n: "0x0D \<notin> set s" "\<forall>t\<in>set ss. 0x0D \<notin> set t"
     "0x0A \<notin> set s" "\<forall>t\<in>set ss. 0x0A \<notin> set t"
    by auto
  have "replaceCRLF out = s @ concat (map (\<lambda>t. 0x0A # 0x20 # t) ss)"
    unfolding o joinWith_segments using n(1,2) by (rule replaceCRLF_segments)
  moreover have "0x0D \<notin> set (s @ concat (map (\<lambda>t. 0x0A # 0x20 # t) ss))"
    using n by auto
  ultimately have "replaceCR (replaceCRLF out) = s @ concat (map (\<lambda>t. 0x0A # 0x20 # t) ss)"
    by (simp add: replaceCR_no_CR)
  with unfoldContent_segments[OF n(3,4)] c show ?thesis by simp
qed

section \<open>isAllowedProperty\<close>

lemma indexOf_None: "indexOf s c = None \<longleftrightarrow> c \<notin> set s"
  by (induction s) auto

lemma indexOf_Some_less: "indexOf s c = Some i \<Longrightarrow> i < length s \<and> s ! i = c \<and> c \<notin> set (take i s)"
proof (induction s arbitrary: i)
  case (Cons x xs)
  then show ?case by (cases "x = c") auto
qed simp

lemma indexOf_takeWhile: "indexOf s c = Some i \<Longrightarrow> take i s = takeWhile (\<lambda>x. x \<noteq> c) s"
proof (induction s arbitrary: i)
  case (Cons x xs)
  then show ?case by (cases "x = c") auto
qed simp

lemma takeWhile_two_first:
  "indexOf s a = Some i \<Longrightarrow> (case indexOf s b of None \<Rightarrow> True | Some j \<Rightarrow> i < j) \<Longrightarrow>
   takeWhile (\<lambda>x. x \<noteq> b \<and> x \<noteq> a) s = take i s"
proof (induction s arbitrary: i)
  case (Cons x xs)
  show ?case
  proof (cases "x = a")
    case True
    with Cons.prems show ?thesis by simp
  next
    case False
    with Cons.prems obtain i' where i': "indexOf xs a = Some i'" "i = Suc i'" by auto
    from Cons.prems i' False have xb: "x \<noteq> b" by (auto split: option.splits if_splits)
    with Cons.prems i' have "case indexOf xs b of None \<Rightarrow> True | Some j \<Rightarrow> i' < j"
      by (auto split: option.splits)
    from Cons.IH[OF i'(1) this] i' False xb show ?thesis by simp
  qed
qed simp

lemma propName_spec:
  "propName h line =
     (if hasSeparator line then Some (toUpperCase h (specPropertyName line)) else None)"
proof (cases "indexOf line 0x3B")
  case None
  note semi = this
  show ?thesis
  proof (cases "indexOf line 0x3A")
    case None
    with semi show ?thesis
      by (simp add: propName_def hasSeparator_def flip: indexOf_None)
  next
    case (Some ci)
    from takeWhile_two_first[OF Some, of "0x3B"] semi
    have "specPropertyName line = take ci line"
      by (simp add: specPropertyName_def)
    moreover from Some have "0x3A \<in> set line"
      using indexOf_None[of line "0x3A"] by auto
    ultimately show ?thesis using semi Some
      by (simp add: propName_def hasSeparator_def)
  qed
next
  case (Some si)
  note semi = this
  then have in_semi: "0x3B \<in> set line" using indexOf_None[of line "0x3B"] by auto
  show ?thesis
  proof (cases "indexOf line 0x3A")
    case None
    from takeWhile_two_first[OF semi, of "0x3A"] None
    have "takeWhile (\<lambda>x. x \<noteq> 0x3A \<and> x \<noteq> 0x3B) line = take si line" by simp
    then have "specPropertyName line = take si line"
      by (simp add: specPropertyName_def conj_commute)
    with semi None in_semi show ?thesis
      by (simp add: propName_def hasSeparator_def)
  next
    case (Some ci)
    have ne: "si \<noteq> ci"
      using indexOf_Some_less[OF semi] indexOf_Some_less[OF Some] by auto
    show ?thesis
    proof (cases "si < ci")
      case True
      from takeWhile_two_first[OF semi, of "0x3A"] Some True
      have "takeWhile (\<lambda>x. x \<noteq> 0x3A \<and> x \<noteq> 0x3B) line = take si line" by simp
      then have "specPropertyName line = take si line"
        by (simp add: specPropertyName_def conj_commute)
      with semi Some in_semi True show ?thesis
        by (simp add: propName_def hasSeparator_def)
    next
      case False
      with ne have "ci < si" by simp
      with takeWhile_two_first[OF Some, of "0x3B"] semi
      have "specPropertyName line = take ci line"
        by (simp add: specPropertyName_def)
      with semi Some in_semi False show ?thesis
        by (simp add: propName_def hasSeparator_def)
    qed
  qed
qed

text \<open>
  C5 (deny list), as amended. On a line that contains a \<open>:\<close> or a \<open>;\<close>,
  \<open>isAllowedProperty\<close> is false exactly when the property name, put in upper case by
  \<open>toUpperCase\<close>, equals or starts with \<open>X-APPLE-\<close>, \<open>X-WR-ALARMUID\<close>, \<open>ACKNOWLEDGED\<close> or
  \<open>ATTACH\<close>, and true otherwise. A line with neither separator is rejected, whatever
  it holds: the last branch of the source returns \<open>false\<close>.
\<close>

theorem isAllowedProperty_blocked:
  "isAllowedProperty h line = (hasSeparator line \<and> \<not> nameBlocked h line)"
  by (auto simp add: isAllowedProperty_def propName_spec nameBlocked_def list_all_iff)

theorem isAllowedProperty_blocked_witness:
  "isAllowedProperty utcHost (js ''attach;FMTTYPE=image/png:cid'') = False
   \<and> isAllowedProperty utcHost (js ''x-apple-travel-start:1'') = False
   \<and> isAllowedProperty utcHost (js ''SUMMARY:ATTACH'') = True"
  using isAllowedProperty_blocked[of utcHost "js ''attach;FMTTYPE=image/png:cid''"]
        isAllowedProperty_blocked[of utcHost "js ''x-apple-travel-start:1''"]
        isAllowedProperty_blocked[of utcHost "js ''SUMMARY:ATTACH''"]
  by (simp add: nameBlocked_def hasSeparator_def specPropertyName_def blockedProperties_def
      js_def utcHost_def asciiUpper_def)

text \<open>
  C5 as stated fails on the line \<open>SUMMARY\<close>: its name matches no entry of the deny
  list, and \<open>isAllowedProperty\<close> is false.
\<close>

theorem isAllowedProperty_no_separator_counterexample:
  "\<not> nameBlocked utcHost (js ''SUMMARY'') \<and> isAllowedProperty utcHost (js ''SUMMARY'') = False"
  by (simp add: nameBlocked_def isAllowedProperty_def propName_def specPropertyName_def
      blockedProperties_def js_def utcHost_def asciiUpper_def)

section \<open>parseICalDate\<close>

lemma digitsN_eq:
  "digitsN n s = (if n \<le> length s \<and> allDigits (take n s) then Some (take n s, drop n s) else None)"
proof (induction n arbitrary: s)
  case (Suc n)
  show ?case
  proof (cases s)
    case (Cons c cs)
    with Suc[of cs] show ?thesis by (auto simp: allDigits_def)
  qed simp
qed (simp add: allDigits_def)

lemma allDigits_append: "allDigits (xs @ ys) = (allDigits xs \<and> allDigits ys)"
  by (simp add: allDigits_def)

lemma take_8_split: "take 8 s = take 4 s @ take 2 (drop 4 s) @ take 2 (drop 6 s)"
proof -
  have "take 8 s = take (4 + (2 + 2)) s" by simp
  also have "\<dots> = take 4 s @ take 2 (drop 4 s) @ take 2 (drop 2 (drop 4 s))"
    by (simp only: take_add)
  finally show ?thesis by simp
qed

lemma take_6_split: "take 6 s = take 2 s @ take 2 (drop 2 s) @ take 2 (drop 4 s)"
proof -
  have "take 6 s = take (2 + (2 + 2)) s" by simp
  also have "\<dots> = take 2 s @ take 2 (drop 2 s) @ take 2 (drop 2 (drop 2 s))"
    by (simp only: take_add)
  finally show ?thesis by simp
qed

lemma allDigits_take_8:
  "allDigits (take 8 s) =
     (allDigits (take 4 s) \<and> allDigits (take 2 (drop 4 s)) \<and> allDigits (take 2 (drop 6 s)))"
  by (subst take_8_split) (simp only: allDigits_append)

lemma allDigits_take_6:
  "allDigits (take 6 s) =
     (allDigits (take 2 s) \<and> allDigits (take 2 (drop 2 s)) \<and> allDigits (take 2 (drop 4 s)))"
  by (subst take_6_split) (simp only: allDigits_append)

lemma date_groups:
  "(case digitsN 4 s of None \<Rightarrow> None | Some (y, r1) \<Rightarrow>
    case digitsN 2 r1 of None \<Rightarrow> None | Some (m, r2) \<Rightarrow>
    case digitsN 2 r2 of None \<Rightarrow> None | Some (d, r3) \<Rightarrow> F y m d r3) =
   (if 8 \<le> length s \<and> allDigits (take 8 s)
    then F (take 4 s) (take 2 (drop 4 s)) (take 2 (drop 6 s)) (drop 8 s) else None)"
proof -
  have d1: "digitsN 4 s =
      (if 4 \<le> length s \<and> allDigits (take 4 s) then Some (take 4 s, drop 4 s) else None)"
    by (rule digitsN_eq)
  have d2: "digitsN 2 (drop 4 s) =
      (if 6 \<le> length s \<and> allDigits (take 2 (drop 4 s))
       then Some (take 2 (drop 4 s), drop 6 s) else None)"
    by (subst digitsN_eq) auto
  have d3: "digitsN 2 (drop 6 s) =
      (if 8 \<le> length s \<and> allDigits (take 2 (drop 6 s))
       then Some (take 2 (drop 6 s), drop 8 s) else None)"
    by (subst digitsN_eq) auto
  show ?thesis
    unfolding allDigits_take_8
    by (cases "8 \<le> length s"; cases "allDigits (take 4 s)"; cases "allDigits (take 2 (drop 4 s))";
        cases "allDigits (take 2 (drop 6 s))"; simp add: d1 d2 d3)
qed

lemma time_groups:
  "(case digitsN 2 s of None \<Rightarrow> None | Some (hh, r1) \<Rightarrow>
    case digitsN 2 r1 of None \<Rightarrow> None | Some (mi, r2) \<Rightarrow>
    case digitsN 2 r2 of None \<Rightarrow> None | Some (ss, r3) \<Rightarrow> F hh mi ss r3) =
   (if 6 \<le> length s \<and> allDigits (take 6 s)
    then F (take 2 s) (take 2 (drop 2 s)) (take 2 (drop 4 s)) (drop 6 s) else None)"
proof -
  have d1: "digitsN 2 s =
      (if 2 \<le> length s \<and> allDigits (take 2 s) then Some (take 2 s, drop 2 s) else None)"
    by (rule digitsN_eq)
  have d2: "digitsN 2 (drop 2 s) =
      (if 4 \<le> length s \<and> allDigits (take 2 (drop 2 s))
       then Some (take 2 (drop 2 s), drop 4 s) else None)"
    by (subst digitsN_eq) auto
  have d3: "digitsN 2 (drop 4 s) =
      (if 6 \<le> length s \<and> allDigits (take 2 (drop 4 s))
       then Some (take 2 (drop 4 s), drop 6 s) else None)"
    by (subst digitsN_eq) auto
  show ?thesis
    unfolding allDigits_take_6
    by (cases "6 \<le> length s"; cases "allDigits (take 2 s)"; cases "allDigits (take 2 (drop 2 s))";
        cases "allDigits (take 2 (drop 4 s))"; simp add: d1 d2 d3)
qed

lemma matchTime_eq:
  "matchTime r =
     (case r of
        [] \<Rightarrow> Some None
      | c # r0 \<Rightarrow>
          if c = 0x54 \<and> 6 \<le> length r0 \<and> allDigits (take 6 r0) \<and> (drop 6 r0 = [] \<or> drop 6 r0 = [0x5A])
          then Some (Some (take 2 r0, take 2 (drop 2 r0), take 2 (drop 4 r0), drop 6 r0 = [0x5A]))
          else None)"
  unfolding matchTime_def time_groups by (auto split: list.splits)

lemma matchDate_eq:
  "matchDate s =
     (if dateGrammar s then
        Some (take 4 s, take 2 (drop 4 s), take 2 (drop 6 s),
              if length s = 8 then None
              else Some (take 2 (drop 9 s), take 2 (drop 11 s), take 2 (drop 13 s), length s = 16))
      else None)"
proof (cases "8 \<le> length s \<and> allDigits (take 8 s)")
  case False
  then show ?thesis unfolding matchDate_def date_groups by (auto simp: dateGrammar_def Let_def)
next
  case True
  show ?thesis
  proof (cases "drop 8 s")
    case Nil
    with True have "length s = 8" by simp
    with True Nil show ?thesis
      unfolding matchDate_def date_groups by (simp add: dateGrammar_def matchTime_eq)
  next
    case (Cons c r0)
    have "drop 9 s = drop 1 (drop 8 s)" by simp
    with Cons have r0: "r0 = drop 9 s" by simp
    have "length (drop 8 s) = length s - 8" by simp
    with Cons True have len: "length s = 9 + length r0" by simp
    have mt: "matchTime (drop 8 s) =
        (if c = 0x54 \<and> 15 \<le> length s \<and> allDigits (take 6 (drop 9 s))
            \<and> (drop 15 s = [] \<or> drop 15 s = [0x5A])
         then Some (Some (take 2 (drop 9 s), take 2 (drop 11 s), take 2 (drop 13 s),
                          drop 15 s = [0x5A]))
         else None)"
      unfolding Cons matchTime_eq using len by (simp add: r0)
    have c1: "take (Suc 0) (drop 8 s) = [c]" unfolding Cons by simp
    have g: "dateGrammar s =
        (c = 0x54 \<and> 15 \<le> length s \<and> allDigits (take 6 (drop 9 s))
         \<and> (drop 15 s = [] \<or> drop 15 s = [0x5A]))"
    proof -
      have ne: "drop 8 s \<noteq> []" unfolding Cons by simp
      have "(length (take 6 (drop 9 s)) = 6) = (15 \<le> length s)" by auto
      moreover from True have "length (take 8 s) = 8" by simp
      ultimately show ?thesis using True ne
        by (auto simp add: dateGrammar_def Let_def c1 simp del: length_take)
    qed
    have l16: "drop 15 s = [] \<or> drop 15 s = [0x5A] \<Longrightarrow> (length s = 16) = (drop 15 s = [0x5A])"
    proof -
      assume a: "drop 15 s = [] \<or> drop 15 s = [0x5A]"
      show ?thesis
      proof (cases "drop 15 s = []")
        case True
        then show ?thesis by simp
      next
        case False
        with a have "length (drop 15 s) = 1" by simp
        then have "length s = 16" by simp
        with False a show ?thesis by simp
      qed
    qed
    from True len l16 show ?thesis
      unfolding matchDate_def date_groups mt g by auto
  qed
qed


lemma dateGrammar_length: "dateGrammar s \<Longrightarrow> length s = 8 \<or> length s = 15 \<or> length s = 16"
proof -
  assume g: "dateGrammar s"
  then have l8: "8 \<le> length s" by (auto simp: dateGrammar_def Let_def)
  show ?thesis
  proof (cases "drop 8 s = []")
    case True
    with l8 show ?thesis by simp
  next
    case False
    with g have h: "length (take 6 (drop 9 s)) = 6" and z: "drop 15 s = [] \<or> drop 15 s = [0x5A]"
      by (auto simp: dateGrammar_def Let_def simp del: length_take)
    from h have l15: "15 \<le> length s" by auto
    show ?thesis
    proof (cases "drop 15 s = []")
      case True
      with l15 show ?thesis by simp
    next
      case False
      with z have "length (drop 15 s) = 1" by simp
      then show ?thesis by auto
    qed
  qed
qed

lemma stripToColon_no_terminator:
  "\<forall>c\<in>set dateStr. \<not> isLineTerminator c \<Longrightarrow> stripToColon dateStr = stripAfterFinalColon dateStr"
proof -
  assume "\<forall>c\<in>set dateStr. \<not> isLineTerminator c"
  then have tw: "takeWhile (\<lambda>c. \<not> isLineTerminator c) dateStr = dateStr"
    by (simp add: takeWhile_eq_all_conv)
  show ?thesis unfolding stripToColon_def stripAfterFinalColon_def tw by (rule refl)
qed

text \<open>
  C8 (date grammar), as amended. \<open>parseICalDate\<close> first strips the start of the string
  up to and including the last colon that comes before the first line terminator (on
  a string without line terminator: the final colon of the string). It returns a date
  exactly when what is left matches \<open>YYYYMMDD[THHMMSS[Z]]\<close>, and nothing otherwise. The
  date of a date-only string is built as local time with hour, minute and second 0;
  with a time and no \<open>Z\<close> it is built as local time; with a trailing \<open>Z\<close> it is built
  by \<open>Date.UTC\<close>. The month passed on is the month written minus one.
\<close>

theorem parseICalDate_grammar:
  "parseICalDate h dateStr =
     (let s = stripToColon dateStr in
      if \<not> dateGrammar s then None
      else if length s = 8 then
        Some (dateLocal h (fieldAt 0 4 s) (fieldAt 4 2 s - 1) (fieldAt 6 2 s) 0 0 0)
      else if length s = 15 then
        Some (dateLocal h (fieldAt 0 4 s) (fieldAt 4 2 s - 1) (fieldAt 6 2 s)
                (fieldAt 9 2 s) (fieldAt 11 2 s) (fieldAt 13 2 s))
      else
        Some (dateUTC h (fieldAt 0 4 s) (fieldAt 4 2 s - 1) (fieldAt 6 2 s)
                (fieldAt 9 2 s) (fieldAt 11 2 s) (fieldAt 13 2 s)))
   \<and> ((\<forall>c\<in>set dateStr. \<not> isLineTerminator c) \<longrightarrow>
        stripToColon dateStr = stripAfterFinalColon dateStr)"
proof -
  have e: "stripToColon [] = []" by (simp add: stripToColon_def lastIndexOf_def)
  have "\<not> dateGrammar []" by (simp add: dateGrammar_def)
  with e have empty: "dateStr = [] \<Longrightarrow> \<not> dateGrammar (stripToColon dateStr)" by simp
  show ?thesis
  proof (cases "dateGrammar (stripToColon dateStr)")
    case False
    then show ?thesis
      by (simp add: parseICalDate_def matchDate_eq stripToColon_no_terminator)
  next
    case True
    with empty have ne: "dateStr \<noteq> []" by blast
    from dateGrammar_length[OF True] True ne show ?thesis
      by (auto simp add: parseICalDate_def matchDate_eq Let_def fieldAt_def
            stripToColon_no_terminator)
  qed
qed

theorem parseICalDate_grammar_witness:
  "stripAfterFinalColon (js ''TZID=Asia/Tokyo:20240115T093000'') = js ''20240115T093000''
   \<and> dateGrammar (js ''20240115T093000'')
   \<and> parseICalDate utcHost (js ''TZID=Asia/Tokyo:20240115T093000'') =
       Some (dateLocal utcHost 2024 0 15 9 30 0)"
proof -
  let ?x = "js ''TZID=Asia/Tokyo:20240115T093000''"
  let ?s = "js ''20240115T093000''"
  have nt: "\<forall>c\<in>set ?x. \<not> isLineTerminator c" by code_simp
  have sf: "stripAfterFinalColon ?x = ?s" by code_simp
  have g: "dateGrammar ?s" by code_simp
  have l: "length ?s = 15" by (simp add: js_def)
  have f: "fieldAt 0 4 ?s = 2024" "fieldAt 4 2 ?s = 1" "fieldAt 6 2 ?s = 15"
    "fieldAt 9 2 ?s = 9" "fieldAt 11 2 ?s = 30" "fieldAt 13 2 ?s = 0"
    by code_simp+
  from parseICalDate_grammar[of utcHost ?x] nt have st: "stripToColon ?x = ?s"
    by (simp only: sf)
  from parseICalDate_grammar[of utcHost ?x]
  have "parseICalDate utcHost ?x = Some (dateLocal utcHost 2024 0 15 9 30 0)"
    unfolding st Let_def using g l f by simp
  with sf g show ?thesis by simp
qed

text \<open>
  C8 as stated fails on a string with a line terminator before its final colon: what
  follows the final colon is a date, and \<open>parseICalDate\<close> returns nothing.
\<close>

theorem parseICalDate_line_terminator_counterexample:
  "stripAfterFinalColon (0x0A # js '':20240115'') = js ''20240115''
   \<and> dateGrammar (stripAfterFinalColon (0x0A # js '':20240115''))
   \<and> parseICalDate utcHost (0x0A # js '':20240115'') = None"
  by code_simp

section \<open>parse: the header\<close>

lemma parseLine_found:
  "foundFirstEvent st \<Longrightarrow>
   foundFirstEvent (parseLine st l) \<and>
   headerLines (calendarOf (parseLine st l)) = headerLines (calendarOf st)"
  by (simp add: parseLine_def processLine_def split: option.splits)

lemma parseLines_found:
  "foundFirstEvent st \<Longrightarrow>
   headerLines (calendarOf (foldl parseLine st ls)) = headerLines (calendarOf st)"
proof (induction ls arbitrary: st)
  case (Cons l ls)
  from parseLine_found[OF Cons.prems, of l] Cons.IH[of "parseLine st l"]
  show ?case by simp
qed simp

lemma parseLines_header:
  "\<not> foundFirstEvent st \<Longrightarrow> \<not> inEvent st \<Longrightarrow>
   headerLines (calendarOf (foldl parseLine st ls)) =
     headerLines (calendarOf st) @
       filter headerKept (takeWhile (\<lambda>l. l \<noteq> js ''BEGIN:VEVENT'') (map trim ls))"
proof (induction ls arbitrary: st)
  case (Cons l ls)
  show ?case
  proof (cases "trim l = js ''BEGIN:VEVENT''")
    case True
    then have "foundFirstEvent (parseLine st l)"
      and "headerLines (calendarOf (parseLine st l)) = headerLines (calendarOf st)"
      by (simp_all add: parseLine_def processLine_def)
    with parseLines_found[of "parseLine st l" ls] True show ?thesis by simp
  next
    case nb: False
    show ?thesis
    proof (cases "headerKept (trim l)")
      case True
      with nb Cons.prems
      have "\<not> foundFirstEvent (parseLine st l)" "\<not> inEvent (parseLine st l)"
        "headerLines (calendarOf (parseLine st l)) = headerLines (calendarOf st) @ [trim l]"
        by (simp_all add: parseLine_def processLine_def headerKept_def)
      with Cons.IH[of "parseLine st l"] nb True show ?thesis by simp
    next
      case False
      with nb Cons.prems
      have "\<not> foundFirstEvent (parseLine st l)" "\<not> inEvent (parseLine st l)"
        "headerLines (calendarOf (parseLine st l)) = headerLines (calendarOf st)"
        by (auto simp add: parseLine_def processLine_def headerKept_def split: option.splits)
      with Cons.IH[of "parseLine st l"] nb False show ?thesis by simp
    qed
  qed
qed simp

text \<open>
  C9 (header invariant), as amended. \<open>headerLines\<close> holds exactly the trimmed lines that
  precede the first \<open>BEGIN:VEVENT\<close>, except the lines \<open>END:VEVENT\<close> and \<open>END:VCALENDAR\<close>.
  It never contains \<open>BEGIN:VEVENT\<close> or \<open>END:VEVENT\<close>, nor any line that follows the first
  \<open>BEGIN:VEVENT\<close>, such as the lines of an alarm inside an event. Alarm lines that come
  before the first event are header lines like any other.
\<close>

theorem parse_headerLines:
  "headerLines (parse icsContent) = filter headerKept (linesBeforeFirstEvent icsContent)
   \<and> js ''BEGIN:VEVENT'' \<notin> set (headerLines (parse icsContent))
   \<and> js ''END:VEVENT'' \<notin> set (headerLines (parse icsContent))"
proof -
  have h: "headerLines (parse icsContent) = filter headerKept (linesBeforeFirstEvent icsContent)"
    using parseLines_header[of initialState "contentLines icsContent"]
    by (simp add: parse_def linesBeforeFirstEvent_def initialState_def)
  moreover have "js ''BEGIN:VEVENT'' \<notin> set (linesBeforeFirstEvent icsContent)"
    unfolding linesBeforeFirstEvent_def by (auto dest: set_takeWhileD)
  ultimately show ?thesis by (auto simp: headerKept_def)
qed

text \<open>
  C9 as stated fails on a calendar whose to-do, placed before the first event, has an
  alarm: the three lines of the alarm are in \<open>headerLines\<close>.
\<close>

theorem parse_header_alarm_counterexample:
  "headerLines (parse todoAlarm) =
     [js ''BEGIN:VCALENDAR'', js ''BEGIN:VTODO'', js ''BEGIN:VALARM'', js ''TRIGGER:-PT15M'',
      js ''END:VALARM'', js ''END:VTODO'']"
  by code_simp

section \<open>filterByDateRange and splitByYear\<close>

lemma inRange_keptByRange: "inRange h lo hi ev = keptByRange h lo hi ev"
  by (auto simp: inRange_def keptByRange_def withinBounds_def split: option.splits)

text \<open>
  C6 (date filter). \<open>filterByDateRange\<close> keeps exactly the events that have no parsable
  date or whose date lies within the bounds, ends included, an absent bound being no
  bound; the result is the list of the kept events in their original order.
\<close>

theorem filterByDateRange_keeps:
  "filterByDateRange h evs lo hi = filter (keptByRange h lo hi) evs
   \<and> subseq (filterByDateRange h evs lo hi) evs
   \<and> (\<forall>ev \<in> set evs. getEventDate h ev = None \<longrightarrow>
         ev \<in> set (filterByDateRange h evs lo hi))"
proof -
  have "inRange h lo hi = keptByRange h lo hi"
    by (rule ext) (rule inRange_keptByRange)
  then show ?thesis
    by (simp add: filterByDateRange_def keptByRange_def)
qed

lemma fourEvents_dates:
  "getEventDate utcHost (datedEvent (js ''20230101'')) = Some 1672531200000"
  "getEventDate utcHost undatedEvent = None"
  "getEventDate utcHost (datedEvent (js ''20240101'')) = Some 1704067200000"
  "getEventDate utcHost (datedEvent (js ''20230615T120000Z'')) = Some 1686830400000"
  by code_simp+

theorem filterByDateRange_keeps_witness:
  "filterByDateRange utcHost fourEvents (Some 1672531200000) (Some 1704067199000) =
     [datedEvent (js ''20230101''), undatedEvent, datedEvent (js ''20230615T120000Z'')]"
proof -
  have "filter (keptByRange utcHost (Some 1672531200000) (Some 1704067199000)) fourEvents =
     [datedEvent (js ''20230101''), undatedEvent, datedEvent (js ''20230615T120000Z'')]"
    by (simp add: fourEvents_def keptByRange_def withinBounds_def fourEvents_dates)
  with filterByDateRange_keeps[of utcHost fourEvents "Some 1672531200000" "Some 1704067199000"]
  show ?thesis by (simp only:)
qed

lemma addToYear_other: "yearOf h ev \<noteq> k \<Longrightarrow> addToYear h m ev k = m k"
  by (simp add: addToYear_def Let_def)

lemma addToYear_same:
  "yearOf h ev = k \<Longrightarrow> addToYear h m ev k = Some ((case m k of None \<Rightarrow> [] | Some b \<Rightarrow> b) @ [ev])"
  by (auto simp add: addToYear_def Let_def)

lemma foldl_addToYear:
  "foldl (addToYear h) m evs k =
     (if filter (\<lambda>e. yearOf h e = k) evs = [] then m k
      else Some ((case m k of None \<Rightarrow> [] | Some b \<Rightarrow> b) @ filter (\<lambda>e. yearOf h e = k) evs))"
proof (induction evs arbitrary: m)
  case (Cons ev evs)
  show ?case
  proof (cases "yearOf h ev = k")
    case True
    with Cons[of "addToYear h m ev"] show ?thesis by (simp add: addToYear_same)
  next
    case False
    with Cons[of "addToYear h m ev"] show ?thesis by (simp add: addToYear_other)
  qed
qed simp

text \<open>
  C7 (split by year). The bucket of a key holds exactly the events of that key, in
  their original order, and a key without event has no bucket: every event is in the
  bucket of its own key and in no other. The key of an event with a parsable date is
  the year \<open>getFullYear\<close> gives for that date; the key of every other event is
  \<open>unknown\<close>.
\<close>

theorem splitByYear_partition:
  "splitByYear h evs k =
     (if \<exists>e \<in> set evs. yearOf h e = k then Some (filter (\<lambda>e. yearOf h e = k) evs) else None)
   \<and> (\<forall>e \<in> set evs. \<forall>b. splitByYear h evs k = Some b \<longrightarrow>
         (e \<in> set b \<longleftrightarrow> k = (case getEventDate h e of
                                   None \<Rightarrow> Unknown | Some d \<Rightarrow> Year (getFullYear h d))))"
proof -
  have a: "splitByYear h evs k =
     (if \<exists>e \<in> set evs. yearOf h e = k then Some (filter (\<lambda>e. yearOf h e = k) evs) else None)"
    by (auto simp add: splitByYear_def foldl_addToYear filter_empty_conv)
  have y: "\<And>e. yearOf h e = (case getEventDate h e of
                                   None \<Rightarrow> Unknown | Some d \<Rightarrow> Year (getFullYear h d))"
    by (simp add: yearOf_def)
  show ?thesis unfolding a using y by (auto split: if_splits)
qed

lemma fourEvents_years:
  "yearOf utcHost (datedEvent (js ''20230101'')) = Year 2023"
  "yearOf utcHost undatedEvent = Unknown"
  "yearOf utcHost (datedEvent (js ''20240101'')) = Year 2024"
  "yearOf utcHost (datedEvent (js ''20230615T120000Z'')) = Year 2023"
  by code_simp+

theorem splitByYear_partition_witness:
  "splitByYear utcHost fourEvents (Year 2023) =
     Some [datedEvent (js ''20230101''), datedEvent (js ''20230615T120000Z'')]
   \<and> splitByYear utcHost fourEvents Unknown = Some [undatedEvent]
   \<and> splitByYear utcHost fourEvents (Year 2022) = None"
  using splitByYear_partition[of utcHost fourEvents "Year 2023"]
        splitByYear_partition[of utcHost fourEvents Unknown]
        splitByYear_partition[of utcHost fourEvents "Year 2022"]
  by (simp add: fourEvents_def fourEvents_years)

section \<open>splitBySize\<close>

lemma foldAll_returns: "\<forall>l\<in>set ls. noAdjHigh l \<Longrightarrow> \<exists>fs. foldAll ls = Some fs"
proof (induction ls)
  case (Cons l ls)
  then obtain fs where "foldAll ls = Some fs" by auto
  moreover from Cons.prems foldLine_returns[of l] obtain f where "foldLine l = Some f" by auto
  ultimately show ?case by simp
qed simp

lemma writeEvents_returns:
  "foldableEvents evs \<Longrightarrow> \<exists>body. writeEvents h cleanMode evs = Some body"
proof (induction evs)
  case (Cons ev evs)
  then obtain rest where r: "writeEvents h cleanMode evs = Some rest"
    by (auto simp: foldableEvents_def)
  from Cons.prems have "\<forall>l\<in>set (filter (keptLine h cleanMode) (eventSource ev)). noAdjHigh l"
    by (auto simp: foldableEvents_def)
  from foldAll_returns[OF this] obtain b where
    "foldAll (filter (keptLine h cleanMode) (eventSource ev)) = Some b" by auto
  with r show ?case by simp
qed simp

lemma writeICal_returns:
  assumes "foldableHeader cal" and "foldableEvents evs"
  shows "\<exists>text. writeICal h cal evs cleanMode = Some text"
proof -
  from assms(1) foldAll_returns[of "headerLines cal"] obtain hd where
    "foldAll (headerLines cal) = Some hd" by (auto simp: foldableHeader_def)
  moreover from writeEvents_returns[OF assms(2)] obtain body where
    "writeEvents h cleanMode evs = Some body" by auto
  ultimately show ?thesis by (simp add: writeICal_def)
qed

lemma createChunkResult_count:
  "createChunkResult h cal evs cleanMode = Some c \<Longrightarrow> eventCount c = length evs"
  by (auto simp: createChunkResult_def Let_def split: option.splits)

lemma createChunkResult_returns:
  assumes "foldableHeader cal" and "foldableEvents evs"
  shows "\<exists>c. createChunkResult h cal evs cleanMode = Some c"
  using writeICal_returns[OF assms, of h cleanMode]
  by (auto simp: createChunkResult_def Let_def)

lemma foldableEvents_append [simp]:
  "foldableEvents (xs @ ys) = (foldableEvents xs \<and> foldableEvents ys)"
  by (auto simp: foldableEvents_def)

lemma foldableEvents_Cons:
  "foldableEvents (x # xs) = (foldableEvents [x] \<and> foldableEvents xs)"
  by (auto simp: foldableEvents_def)

lemma getEventSize_pos: "0 < getEventSize ev"
proof -
  have "0 \<le> (\<Sum>line\<leftarrow>eventSource ev. int (length line) + 2)"
    by (rule sum_list_nonneg) auto
  then show ?thesis by (simp add: getEventSize_def js_def CRLF_def)
qed

lemma getHeaderFooterSize_pos: "0 < getHeaderFooterSize cal"
proof -
  have "0 \<le> (\<Sum>line\<leftarrow>headerLines cal. int (length line) + 2)"
    by (rule sum_list_nonneg) auto
  then show ?thesis by (simp add: getHeaderFooterSize_def js_def CRLF_def)
qed

lemma splitLoop_returns:
  "foldableHeader cal \<Longrightarrow> foldableEvents evs \<Longrightarrow> foldableEvents cur \<Longrightarrow>
   \<exists>rs' cur' sz'. splitLoop h cal m c evs rs cur sz = Some (rs', cur', sz') \<and> foldableEvents cur'"
proof (induction evs arbitrary: rs cur sz)
  case (Cons ev evs)
  from Cons.prems have fe: "foldableEvents [ev]" "foldableEvents evs"
    by (simp_all add: foldableEvents_def)
  show ?case
  proof (cases "sz + getEventSize ev > m \<and> length cur > 0")
    case True
    from createChunkResult_returns[OF Cons.prems(1) Cons.prems(3), of h c] obtain ch where
      ch: "createChunkResult h cal cur c = Some ch" by auto
    from Cons.IH[OF Cons.prems(1) fe(2) fe(1), of "rs @ [ch]" "getHeaderFooterSize cal + getEventSize ev"]
    show ?thesis using True ch by (simp add: Let_def)
  next
    case False
    from Cons.prems fe have "foldableEvents (cur @ [ev])" by simp
    from Cons.IH[OF Cons.prems(1) fe(2) this, of rs "sz + getEventSize ev"]
    show ?thesis using False by (auto simp add: Let_def)
  qed
qed simp

lemma splitLoop_counts:
  "splitLoop h cal m c evs rs cur sz = Some (rs', cur', sz') \<Longrightarrow>
   sum_list (map eventCount rs') + length cur' = sum_list (map eventCount rs) + length cur + length evs
   \<and> ((\<forall>r\<in>set rs. 0 < eventCount r) \<longrightarrow> (\<forall>r\<in>set rs'. 0 < eventCount r))
   \<and> (evs \<noteq> [] \<or> cur \<noteq> [] \<longrightarrow> cur' \<noteq> [])
   \<and> set rs \<subseteq> set rs'"
proof (induction evs arbitrary: rs cur sz)
  case (Cons ev evs)
  show ?case
  proof (cases "sz + getEventSize ev > m \<and> length cur > 0")
    case True
    with Cons.prems obtain ch where
      ch: "createChunkResult h cal cur c = Some ch" and
      r: "splitLoop h cal m c evs (rs @ [ch]) [ev] (getHeaderFooterSize cal + getEventSize ev)
            = Some (rs', cur', sz')"
      by (auto simp: Let_def split: option.splits)
    from createChunkResult_count[OF ch] True have "eventCount ch = length cur" "0 < eventCount ch"
      by auto
    with Cons.IH[OF r] show ?thesis by auto
  next
    case False
    with Cons.prems have
      r: "splitLoop h cal m c evs rs (cur @ [ev]) (sz + getEventSize ev) = Some (rs', cur', sz')"
      by (auto simp: Let_def)
    from Cons.IH[OF r] show ?thesis by auto
  qed
qed auto

lemma splitLoop_pending:
  "splitLoop h cal m c evs rs [e] sz = Some (rs', cur', sz') \<Longrightarrow> m < sz \<Longrightarrow>
   (\<exists>ch\<in>set rs'. createChunkResult h cal [e] c = Some ch) \<or> cur' = [e]"
proof (cases evs)
  case (Cons ev evs')
  assume a: "splitLoop h cal m c evs rs [e] sz = Some (rs', cur', sz')" and b: "m < sz"
  from b getEventSize_pos[of ev] have "sz + getEventSize ev > m" by simp
  with a Cons obtain ch where
      ch: "createChunkResult h cal [e] c = Some ch" and
      r: "splitLoop h cal m c evs' (rs @ [ch]) [ev] (getHeaderFooterSize cal + getEventSize ev)
            = Some (rs', cur', sz')"
      by (auto simp: Let_def split: option.splits)
  from splitLoop_counts[OF r] have "ch \<in> set rs'" by auto
  with ch show ?thesis by auto
qed simp

lemma splitLoop_oversize:
  "splitLoop h cal m c evs rs cur sz = Some (rs', cur', sz') \<Longrightarrow> 0 \<le> sz \<Longrightarrow>
   e \<in> set evs \<Longrightarrow> m < getEventSize e \<Longrightarrow>
   (\<exists>ch\<in>set rs'. createChunkResult h cal [e] c = Some ch) \<or> cur' = [e]"
proof (induction evs arbitrary: rs cur sz)
  case (Cons ev evs)
  show ?case
  proof (cases "sz + getEventSize ev > m \<and> length cur > 0")
    case True
    with Cons.prems(1) obtain ch where
      ch: "createChunkResult h cal cur c = Some ch" and
      r: "splitLoop h cal m c evs (rs @ [ch]) [ev] (getHeaderFooterSize cal + getEventSize ev)
            = Some (rs', cur', sz')"
      by (auto simp: Let_def split: option.splits)
    show ?thesis
    proof (cases "e = ev")
      case True
      with Cons.prems(4) getHeaderFooterSize_pos[of cal]
      have "m < getHeaderFooterSize cal + getEventSize ev" by simp
      from splitLoop_pending[OF r this] True show ?thesis by simp
    next
      case False
      with Cons.prems(3) have "e \<in> set evs" by simp
      moreover have "0 \<le> getHeaderFooterSize cal + getEventSize ev"
        using getHeaderFooterSize_pos[of cal] getEventSize_pos[of ev] by simp
      ultimately show ?thesis using Cons.IH[OF r] Cons.prems(4) by blast
    qed
  next
    case False
    with Cons.prems(1) have
      r: "splitLoop h cal m c evs rs (cur @ [ev]) (sz + getEventSize ev) = Some (rs', cur', sz')"
      by (auto simp: Let_def)
    show ?thesis
    proof (cases "e = ev")
      case True
      with Cons.prems(2,4) have big: "m < sz + getEventSize ev" by simp
      with False have "cur = []" by simp
      with r have "splitLoop h cal m c evs rs [ev] (sz + getEventSize ev) = Some (rs', cur', sz')"
        by simp
      from splitLoop_pending[OF this big] True show ?thesis by simp
    next
      case ne: False
      with Cons.prems(3) have "e \<in> set evs" by simp
      moreover have "0 \<le> sz + getEventSize ev"
        using Cons.prems(2) getEventSize_pos[of ev] by simp
      ultimately show ?thesis using Cons.IH[OF r] Cons.prems(4) by blast
    qed
  qed
qed simp

lemma set_insertBy [simp]: "set (insertBy cmp x ys) = insert x (set ys)"
  by (induction ys) auto

lemma length_insertBy [simp]: "length (insertBy cmp x ys) = Suc (length ys)"
  by (induction ys) auto

lemma set_sortBy [simp]: "set (sortBy cmp xs) = set xs"
  by (induction xs) (auto simp: sortBy_def)

lemma length_sortBy [simp]: "length (sortBy cmp xs) = length xs"
  by (induction xs) (auto simp: sortBy_def)

lemma parse_surrogateCalendar:
  "parse surrogateCalendar =
     \<lparr>headerLines = [], events = [\<lparr>properties = [], rawLines = [replicate 76 0xD800]\<rparr>],
      calProperties = []\<rparr>"
  by code_simp

lemma writeEvents_surrogate:
  "writeEvents h False [\<lparr>properties = [], rawLines = [replicate 76 0xD800]\<rparr>] = None"
proof -
  have fl: "foldLine (replicate 76 0xD800) = None"
    by (intro foldLine_high_run) (simp_all add: isHighSurrogate_def)
  have "trim (replicate 76 0xD800) \<noteq> []" by code_simp
  then have "keptLine h False (replicate 76 0xD800)" by (simp add: keptLine_def)
  with fl show ?thesis by (simp add: eventSource_def)
qed

text \<open>
  C3 (size split). On calendars and events whose lines \<open>foldLine\<close> can fold, the claim
  holds for every \<open>maxSizeBytes\<close> (theorem \<open>splitBySize_chunks\<close> below). The claim is
  about every calendar and event list, though: on the calendar parsed from
  \<open>surrogateCalendar\<close>, whose event has a line of 76 high surrogates, \<open>splitBySize\<close>
  serialises the only chunk through \<open>write\<close> and \<open>foldLine\<close>, and returns no chunks at
  all, because \<open>foldLine\<close> never returns on that line.
\<close>

theorem splitBySize_surrogate_line_never_returns:
  "events (parse surrogateCalendar) = [\<lparr>properties = [], rawLines = [replicate 76 0xD800]\<rparr>]
   \<and> splitBySize utcHost (parse surrogateCalendar) (events (parse surrogateCalendar))
        512000 False = None"
proof -
  let ?ev = "\<lparr>properties = [], rawLines = [replicate 76 (0xD800 :: unit16)]\<rparr>"
  let ?cal = "\<lparr>headerLines = [], events = [?ev], calProperties = []\<rparr>"
  have w: "writeICal utcHost ?cal [?ev] False = None"
    using writeEvents_surrogate[of utcHost] by (simp add: writeICal_def)
  then have c: "createChunkResult utcHost ?cal [?ev] False = None"
    by (simp add: createChunkResult_def Let_def)
  have "splitBySize utcHost ?cal [?ev] 512000 False = None"
    by (simp add: splitBySize_def sortBy_def Let_def c)
  then show ?thesis by (simp add: parse_surrogateCalendar)
qed

text \<open>
  What \<open>splitBySize\<close> does wherever folding returns: it returns chunks whose
  \<open>eventCount\<close> values sum to the number of events; no chunk is empty; events give at
  least one chunk; and an event whose estimated size exceeds \<open>maxSizeBytes\<close> is the
  single event of a chunk.
\<close>

theorem splitBySize_chunks:
  assumes "foldableHeader cal" and "foldableEvents evs"
  shows "\<exists>chunks. splitBySize h cal evs maxSizeBytes cleanMode = Some chunks
     \<and> sum_list (map eventCount chunks) = length evs
     \<and> (\<forall>ch\<in>set chunks. 0 < eventCount ch)
     \<and> (evs \<noteq> [] \<longrightarrow> chunks \<noteq> [])
     \<and> (\<forall>e\<in>set evs. maxSizeBytes < getEventSize e \<longrightarrow>
          (\<exists>ch\<in>set chunks. createChunkResult h cal [e] cleanMode = Some ch \<and> eventCount ch = 1))"
proof -
  let ?s = "sortBy (compareEvents h) evs"
  let ?H = "getHeaderFooterSize cal"
  have fs: "foldableEvents ?s" using assms(2) by (simp add: foldableEvents_def)
  from splitLoop_returns[OF assms(1) fs, of "[]" h maxSizeBytes cleanMode "[]" ?H]
  obtain rs cur sz where
    l: "splitLoop h cal maxSizeBytes cleanMode ?s [] [] ?H = Some (rs, cur, sz)"
    and fc: "foldableEvents cur"
    by (auto simp: foldableEvents_def)
  have "evs \<noteq> [] \<Longrightarrow> ?s \<noteq> []"
  proof
    assume "evs \<noteq> []" and "?s = []"
    then have "length ?s = 0" by simp
    then have "length evs = 0" by (simp only: length_sortBy)
    with \<open>evs \<noteq> []\<close> show False by simp
  qed
  with splitLoop_counts[OF l] have
    cnt: "sum_list (map eventCount rs) + length cur = length evs"
    and pos: "\<forall>r\<in>set rs. 0 < eventCount r"
    and ne: "evs \<noteq> [] \<longrightarrow> cur \<noteq> []"
    by auto
  have H0: "0 \<le> ?H" using getHeaderFooterSize_pos[of cal] by simp
  have over: "\<And>e. e \<in> set evs \<Longrightarrow> maxSizeBytes < getEventSize e \<Longrightarrow>
     (\<exists>ch\<in>set rs. createChunkResult h cal [e] cleanMode = Some ch) \<or> cur = [e]"
    using splitLoop_oversize[OF l H0] by simp
  show ?thesis
  proof (cases "cur = []")
    case True
    with l have "splitBySize h cal evs maxSizeBytes cleanMode = Some rs"
      by (simp add: splitBySize_def)
    moreover from over True have "\<forall>e\<in>set evs. maxSizeBytes < getEventSize e \<longrightarrow>
          (\<exists>ch\<in>set rs. createChunkResult h cal [e] cleanMode = Some ch \<and> eventCount ch = 1)"
      by (fastforce dest: createChunkResult_count)
    ultimately show ?thesis using cnt pos ne True by auto
  next
    case False
    from createChunkResult_returns[OF assms(1) fc, of h cleanMode] obtain ch where
      ch: "createChunkResult h cal cur cleanMode = Some ch" by auto
    with l False have s: "splitBySize h cal evs maxSizeBytes cleanMode = Some (rs @ [ch])"
      by (simp add: splitBySize_def)
    from createChunkResult_count[OF ch] False have c: "eventCount ch = length cur" "0 < eventCount ch"
      by auto
    have "\<forall>e\<in>set evs. maxSizeBytes < getEventSize e \<longrightarrow>
          (\<exists>x\<in>set (rs @ [ch]). createChunkResult h cal [e] cleanMode = Some x \<and> eventCount x = 1)"
    proof (intro ballI impI)
      fix e assume "e \<in> set evs" "maxSizeBytes < getEventSize e"
      from over[OF this] show "\<exists>x\<in>set (rs @ [ch]). createChunkResult h cal [e] cleanMode = Some x \<and> eventCount x = 1"
      proof
        assume "\<exists>x\<in>set rs. createChunkResult h cal [e] cleanMode = Some x"
        then show ?thesis by (fastforce dest: createChunkResult_count)
      next
        assume "cur = [e]"
        with ch c show ?thesis by auto
      qed
    qed
    with s cnt pos c show ?thesis by auto
  qed
qed

theorem splitBySize_chunks_witness:
  "\<exists>chunks. splitBySize utcHost (parse todoAlarm) fourEvents 30 True = Some chunks
     \<and> sum_list (map eventCount chunks) = 4 \<and> chunks \<noteq> []
     \<and> (\<exists>ch\<in>set chunks. createChunkResult utcHost (parse todoAlarm) [undatedEvent] True = Some ch
            \<and> eventCount ch = 1)"
proof -
  have h: "foldableHeader (parse todoAlarm)" by code_simp
  have e: "foldableEvents fourEvents" by code_simp
  have s: "30 < getEventSize undatedEvent" by code_simp
  have m: "undatedEvent \<in> set fourEvents" "fourEvents \<noteq> []" "length fourEvents = 4"
    by (simp_all add: fourEvents_def)
  from splitBySize_chunks[OF h e, of utcHost 30 True] s m show ?thesis by fastforce
qed

section \<open>parse and write: the round trip\<close>

lemma foldl_parseLine: "foldl parseLine st ls = foldl processLine st (map trim ls)"
  by (induction ls arbitrary: st) (simp_all add: parseLine_def)

lemma parse_logicalLines:
  "parse icsContent = calendarOf (foldl processLine initialState (logicalLines icsContent))"
  by (simp add: parse_def logicalLines_def foldl_parseLine)

lemma set_trim: "set (trim s) \<subseteq> set s"
proof -
  have "set (trim s) \<subseteq> set (dropWhile isWhiteSpace s)"
    unfolding trim_def using set_dropWhileD[of _ isWhiteSpace "rev (dropWhile isWhiteSpace s)"]
    by auto
  then show ?thesis using set_dropWhileD[of _ isWhiteSpace s] by blast
qed

lemma dropWhile_rev_dropWhile:
  "dropWhile P (rev (dropWhile P (rev (dropWhile P s)))) = rev (dropWhile P (rev (dropWhile P s)))"
proof (cases "rev (dropWhile P (rev (dropWhile P s)))")
  case Nil
  show ?thesis unfolding Nil by simp
next
  case (Cons x xs)
  define t where "t = dropWhile P s"
  define n where "n = length t - length (takeWhile P (rev t))"
  have "rev (dropWhile P (rev t)) = rev (drop (length (takeWhile P (rev t))) (rev t))"
    by (simp only: dropWhile_eq_drop)
  also have "\<dots> = take n t" by (simp add: rev_drop n_def)
  finally have "take n t = x # xs" using Cons by (simp only: t_def)
  then obtain ys where t: "t = x # ys" by (cases t; cases n) auto
  have "t \<noteq> [] \<Longrightarrow> \<not> P (hd t)" unfolding t_def by (rule hd_dropWhile)
  with t have "\<not> P x" by simp
  then show ?thesis unfolding Cons by simp
qed

lemma trim_trim: "trim (trim s) = trim s"
  unfolding trim_def dropWhile_rev_dropWhile by (simp add: dropWhile_idem)

lemma splitLF_nonempty: "splitLF s \<noteq> []"
  by (induction s) (auto split: list.splits)

lemma splitLF_no_LF: "l \<in> set (splitLF s) \<Longrightarrow> 0x0A \<notin> set l \<and> set l \<subseteq> set s"
proof (induction s arbitrary: l)
  case (Cons c cs)
  show ?case
  proof (cases "c = 0x0A")
    case True
    with Cons show ?thesis by auto
  next
    case False
    obtain l0 ls where s: "splitLF cs = l0 # ls"
      using splitLF_nonempty[of cs] by (cases "splitLF cs") auto
    with False Cons.prems have "l = c # l0 \<or> l \<in> set ls" by simp
    then show ?thesis
    proof
      assume "l = c # l0"
      with Cons.IH[of l0] s False show ?thesis by auto
    next
      assume "l \<in> set ls"
      with Cons.IH[of l] s show ?thesis by auto
    qed
  qed
qed simp

lemma set_unfoldContent: "set (unfoldContent s) \<subseteq> set s"
  by (induction s rule: unfoldContent.induct) auto

lemma replaceCR_no_CR_result: "0x0D \<notin> set (replaceCR s)"
  by (auto simp: replaceCR_def)

lemma contentLines_good:
  assumes "l \<in> set (contentLines icsContent)"
  shows "0x0D \<notin> set l \<and> 0x0A \<notin> set l \<and> trim l \<noteq> []"
proof -
  let ?t = "unfoldContent (replaceCR (replaceCRLF icsContent))"
  from assms have m: "l \<in> set (splitLF ?t)" and ne: "trim l \<noteq> []"
    by (auto simp: contentLines_def)
  from splitLF_no_LF[OF m] have "0x0A \<notin> set l" "set l \<subseteq> set ?t" by auto
  moreover have "0x0D \<notin> set ?t"
    using set_unfoldContent[of "replaceCR (replaceCRLF icsContent)"]
      replaceCR_no_CR_result[of "replaceCRLF icsContent"] by auto
  ultimately show ?thesis using ne by auto
qed

lemma logicalLines_good: "l \<in> set (logicalLines icsContent) \<Longrightarrow> goodLine l"
proof -
  assume "l \<in> set (logicalLines icsContent)"
  then obtain l0 where l0: "l0 \<in> set (contentLines icsContent)" "l = trim l0"
    by (auto simp: logicalLines_def)
  from contentLines_good[OF l0(1)] set_trim[of l0] l0(2) show ?thesis
    by (auto simp: goodLine_def trim_trim)
qed


lemma set_assign: "set (assign k v ps) \<subseteq> insert (k, v) (set ps)"
proof (induction ps)
  case (Cons kv ps)
  obtain k' v' where kv: "kv = (k', v')" by (cases kv)
  show ?case
  proof (cases "k = k'")
    case True
    then show ?thesis by (auto simp: kv)
  next
    case False
    with Cons show ?thesis by (auto simp: kv)
  qed
qed simp

lemma rawsOf_assign: "rawsOf (assign k v ps) \<subseteq> insert (prop_raw v) (rawsOf ps)"
  using set_assign[of k v ps] by (auto simp: rawsOf_def)

lemma header_phase:
  "\<forall>l\<in>set hdr. headerLine l \<Longrightarrow> \<not> foundFirstEvent st \<Longrightarrow> \<not> inEvent st \<Longrightarrow>
   \<exists>cp. foldl processLine st hdr =
     st\<lparr>calendarOf := (calendarOf st)\<lparr>headerLines := headerLines (calendarOf st) @ hdr,
                                         calProperties := cp\<rparr>\<rparr>"
proof (induction hdr arbitrary: st)
  case Nil
  show ?case by (intro exI[of _ "calProperties (calendarOf st)"]) simp
next
  case (Cons l hdr)
  from Cons.prems obtain cp where
    s: "processLine st l =
      st\<lparr>calendarOf := (calendarOf st)\<lparr>headerLines := headerLines (calendarOf st) @ [l],
                                          calProperties := cp\<rparr>\<rparr>"
    by (auto simp: processLine_def headerLine_def)
  let ?st = "processLine st l"
  from s Cons.prems have "\<not> foundFirstEvent ?st" "\<not> inEvent ?st" by simp_all
  from Cons.IH[OF _ this] Cons.prems(1) obtain cp' where
    "foldl processLine ?st hdr =
      ?st\<lparr>calendarOf := (calendarOf ?st)\<lparr>headerLines := headerLines (calendarOf ?st) @ hdr,
                                          calProperties := cp'\<rparr>\<rparr>"
    by auto
  then show ?case by (intro exI[of _ cp']) (simp add: s)
qed

lemma body_phase:
  "\<forall>l\<in>set b. bodyLine l \<Longrightarrow> inEvent st \<Longrightarrow> \<not> inValarm st \<Longrightarrow> currentEvent st = Some ps \<Longrightarrow>
   \<exists>ps'. foldl processLine st b =
           st\<lparr>currentEventLines := currentEventLines st @ b, currentEvent := Some ps'\<rparr>
         \<and> rawsOf ps' \<subseteq> rawsOf ps \<union> set b"
proof (induction b arbitrary: st ps)
  case Nil
  then show ?case by (intro exI[of _ ps]) simp
next
  case (Cons l b)
  define ps1 where "ps1 =
    (case indexOf l 0x3A of
       None \<Rightarrow> ps
     | Some colonIndex \<Rightarrow>
         assign (propertyName l colonIndex)
           \<lparr>prop_value = drop (colonIndex + 1) l,
            prop_parameters = propertyParameters l colonIndex, prop_raw = l\<rparr> ps)"
  from Cons.prems have
    s: "processLine st l = st\<lparr>currentEventLines := currentEventLines st @ [l],
                                currentEvent := Some ps1\<rparr>"
    by (simp add: processLine_def bodyLine_def ps1_def split: option.splits)
  have r1: "rawsOf ps1 \<subseteq> insert l (rawsOf ps)"
  proof (cases "indexOf l 0x3A")
    case None
    then show ?thesis by (auto simp: ps1_def)
  next
    case (Some ci)
    from rawsOf_assign[of "propertyName l ci" "\<lparr>prop_value = drop (ci + 1) l,
            prop_parameters = propertyParameters l ci, prop_raw = l\<rparr>" ps] Some
    show ?thesis by (simp add: ps1_def)
  qed
  let ?st = "processLine st l"
  from s Cons.prems have "inEvent ?st" "\<not> inValarm ?st" "currentEvent ?st = Some ps1" by simp_all
  from Cons.IH[OF _ this] Cons.prems(1) obtain ps' where
    f: "foldl processLine ?st b =
         ?st\<lparr>currentEventLines := currentEventLines ?st @ b, currentEvent := Some ps'\<rparr>"
    and r: "rawsOf ps' \<subseteq> rawsOf ps1 \<union> set b"
    by auto
  from f have "foldl processLine st (l # b) =
      st\<lparr>currentEventLines := currentEventLines st @ l # b, currentEvent := Some ps'\<rparr>"
    by (simp add: s)
  moreover from r r1 have "rawsOf ps' \<subseteq> rawsOf ps \<union> set (l # b)" by auto
  ultimately show ?case by blast
qed

lemma block_phase:
  assumes "\<forall>l\<in>set b. bodyLine l" and "\<not> inValarm st"
  shows "\<exists>ps'. foldl processLine st (eventBlock b) =
           st\<lparr>foundFirstEvent := True, inEvent := False, inValarm := False,
              currentEventLines := [], currentEvent := None,
              calendarOf := (calendarOf st)\<lparr>events := events (calendarOf st) @
                 [\<lparr>properties = ps', rawLines = b\<rparr>]\<rparr>\<rparr>
         \<and> rawsOf ps' \<subseteq> set b"
proof -
  let ?s1 = "st\<lparr>foundFirstEvent := True, inEvent := True, currentEventLines := [],
                 currentEvent := Some []\<rparr>"
  have b1: "processLine st (js ''BEGIN:VEVENT'') = ?s1" by (simp add: processLine_def)
  from body_phase[OF assms(1), of ?s1 "[]"] assms(2) obtain ps' where
    f: "foldl processLine ?s1 b = ?s1\<lparr>currentEventLines := b, currentEvent := Some ps'\<rparr>"
    and r: "rawsOf ps' \<subseteq> set b"
    by (auto simp: rawsOf_def)
  have "foldl processLine st (eventBlock b) =
      processLine (foldl processLine ?s1 b) (js ''END:VEVENT'')"
    by (simp add: eventBlock_def b1)
  also have "\<dots> = st\<lparr>foundFirstEvent := True, inEvent := False, inValarm := False,
              currentEventLines := [], currentEvent := None,
              calendarOf := (calendarOf st)\<lparr>events := events (calendarOf st) @
                 [\<lparr>properties = ps', rawLines = b\<rparr>]\<rparr>\<rparr>"
    unfolding f by (simp add: processLine_def js_def)
  finally show ?thesis using r by blast
qed


lemma blocks_phase:
  "\<forall>b\<in>set bodies. \<forall>l\<in>set b. bodyLine l \<Longrightarrow> \<not> inValarm st \<Longrightarrow>
   \<not> inValarm (foldl processLine st (concat (map eventBlock bodies))) \<and>
   headerLines (calendarOf (foldl processLine st (concat (map eventBlock bodies)))) =
     headerLines (calendarOf st) \<and>
   (\<exists>evs. events (calendarOf (foldl processLine st (concat (map eventBlock bodies)))) =
            events (calendarOf st) @ evs
          \<and> map rawLines evs = bodies
          \<and> (\<forall>e\<in>set evs. rawsOf (properties e) \<subseteq> set (rawLines e)))"
proof (induction bodies arbitrary: st)
  case Nil
  then show ?case by simp
next
  case (Cons b bodies)
  from Cons.prems have bl: "\<forall>l\<in>set b. bodyLine l" by simp
  from block_phase[OF bl Cons.prems(2)] obtain ps' where
    f: "foldl processLine st (eventBlock b) =
           st\<lparr>foundFirstEvent := True, inEvent := False, inValarm := False,
              currentEventLines := [], currentEvent := None,
              calendarOf := (calendarOf st)\<lparr>events := events (calendarOf st) @
                 [\<lparr>properties = ps', rawLines = b\<rparr>]\<rparr>\<rparr>"
    and r: "rawsOf ps' \<subseteq> set b"
    by blast
  let ?s1 = "foldl processLine st (eventBlock b)"
  from f have nv: "\<not> inValarm ?s1" by simp
  from Cons.prems(1) have "\<forall>b\<in>set bodies. \<forall>l\<in>set b. bodyLine l" by simp
  from Cons.IH[OF this nv] obtain evs where
    i: "\<not> inValarm (foldl processLine ?s1 (concat (map eventBlock bodies)))"
       "headerLines (calendarOf (foldl processLine ?s1 (concat (map eventBlock bodies)))) =
          headerLines (calendarOf ?s1)"
       "events (calendarOf (foldl processLine ?s1 (concat (map eventBlock bodies)))) =
          events (calendarOf ?s1) @ evs"
       "map rawLines evs = bodies"
       "\<forall>e\<in>set evs. rawsOf (properties e) \<subseteq> set (rawLines e)"
    by blast
  have c: "foldl processLine st (concat (map eventBlock (b # bodies))) =
           foldl processLine ?s1 (concat (map eventBlock bodies))"
    by simp
  have h: "headerLines (calendarOf ?s1) = headerLines (calendarOf st)"
    and e: "events (calendarOf ?s1) =
             events (calendarOf st) @ [\<lparr>properties = ps', rawLines = b\<rparr>]"
    by (simp_all add: f)
  show ?case unfolding c
  proof (intro conjI)
    show "\<exists>evs'. events (calendarOf (foldl processLine ?s1 (concat (map eventBlock bodies)))) =
                   events (calendarOf st) @ evs'
                 \<and> map rawLines evs' = b # bodies
                 \<and> (\<forall>e\<in>set evs'. rawsOf (properties e) \<subseteq> set (rawLines e))"
      using i(3,4,5) e r
      by (intro exI[of _ "\<lparr>properties = ps', rawLines = b\<rparr> # evs"]) simp
  qed (simp_all add: i h)
qed

lemma processLine_END_VCALENDAR: "processLine st (js ''END:VCALENDAR'') = st"
  by (simp add: processLine_def js_def)

lemma parse_shape:
  assumes "logicalLines icsContent =
             hdr @ concat (map eventBlock bodies) @ [js ''END:VCALENDAR'']"
    and "\<forall>l\<in>set hdr. headerLine l"
    and "\<forall>b\<in>set bodies. \<forall>l\<in>set b. bodyLine l"
  shows "headerLines (parse icsContent) = hdr
       \<and> map rawLines (events (parse icsContent)) = bodies
       \<and> (\<forall>e\<in>set (events (parse icsContent)). rawsOf (properties e) \<subseteq> set (rawLines e))"
proof -
  from header_phase[OF assms(2), of initialState] obtain cp where
    h: "foldl processLine initialState hdr =
          initialState\<lparr>calendarOf := (calendarOf initialState)\<lparr>headerLines := hdr,
                                         calProperties := cp\<rparr>\<rparr>"
    by (auto simp: initialState_def)
  let ?s1 = "foldl processLine initialState hdr"
  from h have s1: "\<not> inValarm ?s1" "headerLines (calendarOf ?s1) = hdr"
    "events (calendarOf ?s1) = []"
    by (simp_all add: initialState_def)
  let ?s2 = "foldl processLine ?s1 (concat (map eventBlock bodies))"
  from blocks_phase[OF assms(3) s1(1)] s1 obtain evs where
    b: "headerLines (calendarOf ?s2) = hdr" "events (calendarOf ?s2) = evs"
       "map rawLines evs = bodies" "\<forall>e\<in>set evs. rawsOf (properties e) \<subseteq> set (rawLines e)"
    by auto
  have "parse icsContent = calendarOf ?s2"
    by (simp add: parse_logicalLines assms(1) processLine_END_VCALENDAR)
  with b show ?thesis by simp
qed

lemma foldAll_short: "\<forall>l\<in>set ls. length l \<le> 75 \<Longrightarrow> foldAll ls = Some ls"
  by (induction ls) (simp_all add: foldLine_short_id)

lemma eventSource_raw: "rawsOf (properties e) \<subseteq> set (rawLines e) \<Longrightarrow> eventSource e = rawLines e"
  by (cases "properties e") (auto simp: eventSource_def rawsOf_def)

lemma writeEvents_short:
  "\<forall>e\<in>set evs. eventSource e = rawLines e \<and>
      (\<forall>l\<in>set (rawLines e). trim l \<noteq> [] \<and> length l \<le> 75) \<Longrightarrow>
   writeEvents h False evs = Some (concat (map (\<lambda>e. eventBlock (rawLines e)) evs))"
proof (induction evs)
  case (Cons e evs)
  then have k: "filter (keptLine h False) (eventSource e) = rawLines e"
    by (auto simp: keptLine_def filter_id_conv)
  from Cons.prems have "foldAll (rawLines e) = Some (rawLines e)"
    by (intro foldAll_short) simp
  with Cons k show ?case by (simp add: eventBlock_def)
qed simp

lemma joinWith_terminated:
  "ls \<noteq> [] \<Longrightarrow> joinWith sep ls @ sep = concat (map (\<lambda>l. l @ sep) ls)"
  by (induction sep ls rule: joinWith.induct) auto

lemma goodLine_hd: "goodLine l \<Longrightarrow> \<not> isWhiteSpace (hd l)"
proof
  assume g: "goodLine l" and w: "isWhiteSpace (hd l)"
  then obtain x xs where l: "l = x # xs" by (cases l) (auto simp: goodLine_def)
  have "length (trim l) \<le> length (dropWhile isWhiteSpace l)"
    unfolding trim_def using length_dropWhile_le[of isWhiteSpace "rev (dropWhile isWhiteSpace l)"]
    by simp
  also have "\<dots> \<le> length xs"
    using w l length_dropWhile_le[of isWhiteSpace xs] by simp
  finally have "length (trim l) < length l" using l by simp
  with g show False by (simp add: goodLine_def)
qed

lemma replaceCRLF_crlfLines:
  "\<forall>l\<in>set ls. 0x0D \<notin> set l \<Longrightarrow>
   replaceCRLF (crlfLines ls) = concat (map (\<lambda>l. l @ [0x0A]) ls)"
proof (induction ls)
  case (Cons l ls)
  have "replaceCRLF (l @ 0x0D # 0x0A # crlfLines ls) = l @ 0x0A # replaceCRLF (crlfLines ls)"
    using Cons.prems by (intro replaceCRLF_append) simp
  with Cons show ?case by (simp add: crlfLines_def CRLF_def)
qed (simp add: crlfLines_def)

lemma unfoldContent_line:
  "0x0A \<notin> set l \<Longrightarrow> rest = [] \<or> \<not> isWhiteSpace (hd rest) \<Longrightarrow>
   unfoldContent (l @ 0x0A # rest) = l @ 0x0A # unfoldContent rest"
proof (induction l)
  case Nil
  show ?case
  proof (cases rest)
    case (Cons d cs)
    with Nil have "d \<noteq> 0x20" "d \<noteq> 0x09" by (auto simp: isWhiteSpace_def)
    with Cons show ?thesis by simp
  qed simp
next
  case (Cons x l)
  then obtain d cs where "l @ 0x0A # rest = d # cs" by (cases l) auto
  with Cons show ?case by auto
qed

lemma unfoldContent_lines:
  "\<forall>l\<in>set ls. goodLine l \<Longrightarrow>
   unfoldContent (concat (map (\<lambda>l. l @ [0x0A]) ls)) = concat (map (\<lambda>l. l @ [0x0A]) ls)"
proof (induction ls)
  case (Cons l ls)
  let ?rest = "concat (map (\<lambda>l. l @ [0x0A]) ls)"
  have "?rest = [] \<or> \<not> isWhiteSpace (hd ?rest)"
  proof (cases ls)
    case (Cons l' ls')
    with Cons.prems have g: "goodLine l'" by simp
    then have "l' \<noteq> []" by (simp add: goodLine_def)
    with Cons have "hd ?rest = hd l'" by simp
    with goodLine_hd[OF g] show ?thesis by simp
  qed simp
  moreover from Cons.prems have "0x0A \<notin> set l" by (simp add: goodLine_def)
  ultimately have "unfoldContent (l @ 0x0A # ?rest) = l @ 0x0A # unfoldContent ?rest"
    by (rule unfoldContent_line[rotated])
  with Cons show ?case by simp
qed simp

lemma splitLF_line: "0x0A \<notin> set l \<Longrightarrow> splitLF (l @ 0x0A # rest) = l # splitLF rest"
  by (induction l) auto

lemma splitLF_lines:
  "\<forall>l\<in>set ls. 0x0A \<notin> set l \<Longrightarrow> splitLF (concat (map (\<lambda>l. l @ [0x0A]) ls)) = ls @ [[]]"
  by (induction ls) (simp_all add: splitLF_line)

lemma logicalLines_crlfLines:
  assumes "\<forall>l\<in>set ls. goodLine l"
  shows "logicalLines (crlfLines ls) = ls"
proof -
  let ?t = "concat (map (\<lambda>l. l @ [0x0A]) ls)"
  from assms have n: "\<forall>l\<in>set ls. 0x0D \<notin> set l" "\<forall>l\<in>set ls. 0x0A \<notin> set l"
    and t: "\<forall>l\<in>set ls. trim l = l" "\<forall>l\<in>set ls. l \<noteq> []"
    by (auto simp: goodLine_def)
  have "0x0D \<notin> set ?t" using n(1) by auto
  then have "replaceCR ?t = ?t" by (rule replaceCR_no_CR)
  then have "unfoldContent (replaceCR (replaceCRLF (crlfLines ls))) = ?t"
    by (simp add: replaceCRLF_crlfLines[OF n(1)] unfoldContent_lines[OF assms])
  then have "contentLines (crlfLines ls) = filter (\<lambda>line. trim line \<noteq> []) (ls @ [[]])"
    by (simp add: contentLines_def splitLF_lines[OF n(2)])
  also have "\<dots> = ls"
  proof -
    have "trim [] = []" by (simp add: trim_def)
    moreover have "filter (\<lambda>line. trim line \<noteq> []) ls = ls"
      using t by (simp add: filter_id_conv)
    ultimately show ?thesis by simp
  qed
  finally show ?thesis using t by (simp add: logicalLines_def map_idI)
qed

text \<open>
  C1 (round trip), as amended. Let the logical lines of \<open>x\<close> be a non-empty header
  holding none of \<open>BEGIN:VEVENT\<close>, \<open>END:VEVENT\<close>, \<open>END:VCALENDAR\<close>, then event blocks
  \<open>BEGIN:VEVENT\<close> ... \<open>END:VEVENT\<close> whose inner lines are none of these three nor
  \<open>BEGIN:VALARM\<close>, \<open>END:VALARM\<close>, then one \<open>END:VCALENDAR\<close>, all of at most 75 units.
  Then \<open>write(parse(x), parse(x).events, false)\<close> is exactly these lines, in order,
  each followed by CRLF: no marker and no property line is lost or added, and reading
  the output again gives the logical lines of \<open>x\<close>. The header of the parsed calendar
  is the header of \<open>x\<close> and the raw lines of its events are the inner lines of the
  blocks.
\<close>

theorem write_parse_roundtrip:
  assumes "logicalLines icsContent =
             hdr @ concat (map eventBlock bodies) @ [js ''END:VCALENDAR'']"
    and "hdr \<noteq> []"
    and "\<forall>l\<in>set hdr. headerLine l"
    and "\<forall>b\<in>set bodies. \<forall>l\<in>set b. bodyLine l"
    and "\<forall>l\<in>set (logicalLines icsContent). length l \<le> 75"
  shows "writeICal h (parse icsContent) (events (parse icsContent)) False =
           Some (crlfLines (logicalLines icsContent))
       \<and> logicalLines (crlfLines (logicalLines icsContent)) = logicalLines icsContent
       \<and> headerLines (parse icsContent) = hdr
       \<and> map rawLines (events (parse icsContent)) = bodies"
proof -
  let ?cal = "parse icsContent"
  from parse_shape[OF assms(1,3,4)] have
    p: "headerLines ?cal = hdr" "map rawLines (events ?cal) = bodies"
       "\<forall>e\<in>set (events ?cal). rawsOf (properties e) \<subseteq> set (rawLines e)"
    by auto
  have good: "\<And>l. l \<in> set (logicalLines icsContent) \<Longrightarrow> trim l \<noteq> [] \<and> length l \<le> 75"
    using logicalLines_good assms(5) by (auto simp: goodLine_def)
  have hd: "foldAll hdr = Some hdr"
    using assms(1,5) by (intro foldAll_short) auto
  have raw_in: "\<And>e l. e \<in> set (events ?cal) \<Longrightarrow> l \<in> set (rawLines e) \<Longrightarrow>
      l \<in> set (logicalLines icsContent)"
  proof -
    fix e l assume e: "e \<in> set (events ?cal)" and l: "l \<in> set (rawLines e)"
    from e have "rawLines e \<in> set bodies" using p(2) by (metis image_eqI set_map)
    with l show "l \<in> set (logicalLines icsContent)"
      unfolding assms(1) by (auto simp: eventBlock_def)
  qed
  have we: "writeEvents h False (events ?cal) =
      Some (concat (map (\<lambda>e. eventBlock (rawLines e)) (events ?cal)))"
    using p(3) good raw_in by (intro writeEvents_short) (auto simp: eventSource_raw)
  have "concat (map (\<lambda>e. eventBlock (rawLines e)) (events ?cal)) =
        concat (map eventBlock (map rawLines (events ?cal)))"
    by (simp add: comp_def)
  with we p(2) have we': "writeEvents h False (events ?cal) = Some (concat (map eventBlock bodies))"
    by simp
  have "writeICal h ?cal (events ?cal) False =
      Some (joinWith CRLF (hdr @ concat (map eventBlock bodies) @ [js ''END:VCALENDAR'']) @ CRLF)"
    using assms(2) by (simp add: writeICal_def p(1) hd we')
  also have "\<dots> = Some (crlfLines (logicalLines icsContent))"
    unfolding assms(1) crlfLines_def by (subst joinWith_terminated) simp_all
  finally show ?thesis
    using p logicalLines_crlfLines[of "logicalLines icsContent"] logicalLines_good by simp
qed

theorem write_parse_roundtrip_witness:
  "writeICal utcHost (parse smallCalendar) (events (parse smallCalendar)) False =
     Some (crlfLines [js ''BEGIN:VCALENDAR'', js ''VERSION:2.0'', js ''BEGIN:VEVENT'',
                      js ''SUMMARY:x'', js ''END:VEVENT'', js ''END:VCALENDAR''])"
proof -
  have ll: "logicalLines smallCalendar =
      [js ''BEGIN:VCALENDAR'', js ''VERSION:2.0''] @
      concat (map eventBlock [[js ''SUMMARY:x'']]) @ [js ''END:VCALENDAR'']"
    by code_simp
  have h: "\<forall>l\<in>set [js ''BEGIN:VCALENDAR'', js ''VERSION:2.0'']. headerLine l"
    by (simp add: headerLine_def js_def)
  have b: "\<forall>b\<in>set [[js ''SUMMARY:x'']]. \<forall>l\<in>set b. bodyLine l"
    by (simp add: bodyLine_def js_def)
  have l: "\<forall>l\<in>set (logicalLines smallCalendar). length l \<le> 75"
    unfolding ll by (simp add: eventBlock_def js_def)
  from write_parse_roundtrip[OF ll _ h b l, of utcHost]
  show ?thesis unfolding ll by (simp add: eventBlock_def)
qed

text \<open>
  C1 as stated fails on a calendar whose event has an alarm: every line is short, the
  input holds the lines \<open>BEGIN:VALARM\<close>, \<open>TRIGGER:-PT15M\<close> and \<open>END:VALARM\<close>, and the
  output does not.
\<close>

theorem write_parse_alarm_counterexample:
  "logicalLines alarmCalendar =
     [js ''BEGIN:VCALENDAR'', js ''BEGIN:VEVENT'', js ''SUMMARY:x'', js ''BEGIN:VALARM'',
      js ''TRIGGER:-PT15M'', js ''END:VALARM'', js ''END:VEVENT'', js ''END:VCALENDAR'']
   \<and> writeICal utcHost (parse alarmCalendar) (events (parse alarmCalendar)) False =
     Some (crlfLines [js ''BEGIN:VCALENDAR'', js ''BEGIN:VEVENT'', js ''SUMMARY:x'',
                      js ''END:VEVENT'', js ''END:VCALENDAR''])"
  by code_simp

section \<open>write: balanced output\<close>

lemma isMarker_length: "isMarker l \<Longrightarrow> length l \<le> 15 \<and> l \<noteq> [] \<and> hd l \<noteq> 0x20"
  by (auto simp: isMarker_def js_def)

lemma processLine_stateOK:
  assumes "stateOK st" and "goodLine t"
  shows "stateOK (processLine st t)"
proof -
  consider (bv) "t = js ''BEGIN:VEVENT''"
    | (ev) "t \<noteq> js ''BEGIN:VEVENT''" "t = js ''END:VEVENT''"
    | (ec) "t \<noteq> js ''BEGIN:VEVENT''" "t \<noteq> js ''END:VEVENT''" "t = js ''END:VCALENDAR''"
    | (other) "t \<noteq> js ''BEGIN:VEVENT''" "t \<noteq> js ''END:VEVENT''" "t \<noteq> js ''END:VCALENDAR''"
    by blast
  then show ?thesis
  proof cases
    case bv
    with assms show ?thesis by (simp add: processLine_def stateOK_def rawsOf_def)
  next
    case ev
    with assms show ?thesis
      by (cases "currentEvent st") (auto simp add: processLine_def stateOK_def eventOK_def)
  next
    case ec
    with assms show ?thesis by (simp add: processLine_def)
  next
    case other
    show ?thesis
    proof (cases "inEvent st")
      case False
      with other assms show ?thesis
        by (cases "foundFirstEvent st") (simp_all add: processLine_def stateOK_def)
    next
      case True
      show ?thesis
      proof (cases "t = js ''BEGIN:VALARM'' \<or> t = js ''END:VALARM'' \<or> inValarm st")
        case True
        with other \<open>inEvent st\<close> assms show ?thesis
          by (auto simp add: processLine_def stateOK_def)
      next
        case False
        with other have bl: "bodyLine t" by (simp add: bodyLine_def)
        define upd where "upd = (\<lambda>ps. case indexOf t 0x3A of
             None \<Rightarrow> ps
           | Some colonIndex \<Rightarrow>
               assign (propertyName t colonIndex)
                 \<lparr>prop_value = drop (colonIndex + 1) t,
                  prop_parameters = propertyParameters t colonIndex, prop_raw = t\<rparr> ps)"
        have u: "\<And>ps. rawsOf (upd ps) \<subseteq> insert t (rawsOf ps)"
          using rawsOf_assign by (fastforce simp: upd_def split: option.splits)
        from False other \<open>inEvent st\<close> have
          s: "processLine st t = st\<lparr>currentEventLines := currentEventLines st @ [t],
                 currentEvent := map_option upd (currentEvent st)\<rparr>"
          by (cases "currentEvent st"; cases "indexOf t 0x3A")
             (simp_all add: processLine_def upd_def)
        show ?thesis unfolding s using assms bl u
          by (fastforce simp add: stateOK_def)
      qed
    qed
  qed
qed

lemma foldl_processLine_stateOK:
  "stateOK st \<Longrightarrow> \<forall>t\<in>set ts. goodLine t \<Longrightarrow> stateOK (foldl processLine st ts)"
  by (induction ts arbitrary: st) (simp_all add: processLine_stateOK)

lemma parse_events_OK: "e \<in> set (events (parse icsContent)) \<Longrightarrow> eventOK e"
proof -
  have "stateOK initialState" by (simp add: stateOK_def initialState_def)
  then have "stateOK (foldl processLine initialState (logicalLines icsContent))"
    using logicalLines_good by (intro foldl_processLine_stateOK) auto
  then show "e \<in> set (events (parse icsContent)) \<Longrightarrow> eventOK e"
    by (simp add: parse_logicalLines stateOK_def)
qed

lemma parse_header_OK:
  assumes "l \<in> set (headerLines (parse icsContent))"
  shows "goodLine l \<and> headerLine l"
proof -
  have "headerLines (parse icsContent) =
      filter headerKept (takeWhile (\<lambda>l. l \<noteq> js ''BEGIN:VEVENT'') (logicalLines icsContent))"
    using parseLines_header[of initialState "contentLines icsContent"]
    by (simp add: parse_def logicalLines_def initialState_def)
  with assms have k: "headerKept l"
    and t: "l \<in> set (takeWhile (\<lambda>l. l \<noteq> js ''BEGIN:VEVENT'') (logicalLines icsContent))"
    by auto
  from t have "l \<in> set (logicalLines icsContent)" "l \<noteq> js ''BEGIN:VEVENT''"
    by (auto dest: set_takeWhileD)
  with k logicalLines_good show ?thesis by (auto simp: headerKept_def headerLine_def)
qed


lemma goodLine_plain: "goodLine l \<Longrightarrow> plainLine l"
  by (simp add: goodLine_def plainLine_def)

lemma foldLine_phys:
  assumes "goodLine l" and "noAdjHigh l"
  shows "\<exists>ps. foldLine l = Some (joinWith CRLF ps) \<and> physOK l ps"
proof (cases "length l \<le> 75")
  case True
  with assms(1) show ?thesis
    by (intro exI[of _ "[l]"]) (simp add: foldLine_short_id physOK_def goodLine_plain)
next
  case False
  then have long: "75 < length l" by simp
  from foldLine_returns[OF assms(2)] obtain out where o: "foldLine l = Some out" by auto
  from foldLine_long_segments[OF long o] obtain s ss where
    out: "out = joinWith CRLF (s # map ((#) 0x20) ss)" and cat: "s @ concat ss = l"
    and s: "s = take (adjustCut l 75) l" "s \<noteq> []"
    and ss: "\<forall>t\<in>set ss. t \<noteq> [] \<and> length t \<le> 74"
    by blast
  from adjustCut_noAdj_maxLen[OF assms(2), of True] have "74 \<le> adjustCut l 75"
    by (simp add: maxLen_def)
  with long s(1) have ls: "74 \<le> length s" by simp
  have nm_l: "\<not> isMarker l" using isMarker_length[of l] long by auto
  have nm_s: "\<not> isMarker s" using isMarker_length[of s] ls by auto
  have nm_ss: "\<forall>p\<in>set (map ((#) 0x20) ss). \<not> isMarker p"
    using isMarker_length by fastforce
  from assms(1) cat have "0x0D \<notin> set s" "0x0A \<notin> set s"
    "\<forall>t\<in>set ss. 0x0D \<notin> set t \<and> 0x0A \<notin> set t"
    by (auto simp: goodLine_def)
  with s(2) have pl: "\<forall>p\<in>set (s # map ((#) 0x20) ss). plainLine p"
    by (auto simp: plainLine_def)
  from nm_l nm_s nm_ss pl have "physOK l (s # map ((#) 0x20) ss)"
    by (simp add: physOK_def)
  with o out show ?thesis by blast
qed

lemma foldAll_folds:
  "\<forall>l\<in>set ls. goodLine l \<and> noAdjHigh l \<Longrightarrow>
   \<exists>pss. foldAll ls = Some (map (joinWith CRLF) pss) \<and> list_all2 foldsTo ls pss"
proof (induction ls)
  case Nil
  show ?case by (intro exI[of _ "[]"]) simp
next
  case (Cons l ls)
  then obtain pss where p: "foldAll ls = Some (map (joinWith CRLF) pss)" "list_all2 foldsTo ls pss"
    by auto
  from Cons.prems foldLine_phys[of l] obtain ps where
    q: "foldLine l = Some (joinWith CRLF ps)" "physOK l ps" by auto
  then have "foldsTo l ps" by (simp add: foldsTo_def)
  with p q(1) show ?case by (intro exI[of _ "ps # pss"]) simp
qed

lemma list_all2_rightD:
  "list_all2 P xs ys \<Longrightarrow> y \<in> set ys \<Longrightarrow> \<exists>x\<in>set xs. P x y"
  by (induction xs ys rule: list_all2_induct) auto

lemma foldsTo_groups:
  "list_all2 foldsTo ls pss \<Longrightarrow> \<forall>ps\<in>set pss. ps \<noteq> [] \<and> (\<forall>p\<in>set ps. plainLine p)"
  by (induction ls pss rule: list_all2_induct) (auto simp: foldsTo_def physOK_def)

lemma foldsTo_no_marker:
  "list_all2 foldsTo ls pss \<Longrightarrow> \<forall>l\<in>set ls. \<not> isMarker l \<Longrightarrow>
   \<forall>p\<in>set (concat pss). \<not> isMarker p"
  by (induction ls pss rule: list_all2_induct) (auto simp: foldsTo_def physOK_def)

lemma foldsTo_header:
  "list_all2 foldsTo ls pss \<Longrightarrow> \<forall>l\<in>set ls. headerLine l \<Longrightarrow>
   count_list (concat pss) (js ''BEGIN:VCALENDAR'') = count_list ls (js ''BEGIN:VCALENDAR'')
   \<and> (\<forall>p\<in>set (concat pss). headerLine p)"
proof (induction ls pss rule: list_all2_induct)
  case (Cons l ls ps pss)
  then have ih: "count_list (concat pss) (js ''BEGIN:VCALENDAR'') =
                   count_list ls (js ''BEGIN:VCALENDAR'')"
      "\<forall>p\<in>set (concat pss). headerLine p"
    by simp_all
  from Cons.prems have hl: "headerLine l" by simp
  show ?case
  proof (cases "l = js ''BEGIN:VCALENDAR''")
    case True
    with Cons.hyps(1) have "ps = [js ''BEGIN:VCALENDAR'']"
      by (simp add: foldsTo_def physOK_def isMarker_def)
    with True ih hl show ?thesis by simp
  next
    case False
    with hl have "\<not> isMarker l" by (auto simp: isMarker_def headerLine_def)
    with Cons.hyps(1) have nm: "\<forall>p\<in>set ps. \<not> isMarker p" by (simp add: foldsTo_def physOK_def)
    then have "js ''BEGIN:VCALENDAR'' \<notin> set ps" by (auto simp: isMarker_def)
    then have "count_list ps (js ''BEGIN:VCALENDAR'') = 0" by (simp add: count_list_0_iff)
    moreover from nm have "\<forall>p\<in>set ps. headerLine p" by (auto simp: isMarker_def headerLine_def)
    ultimately show ?thesis using False ih by auto
  qed
qed simp

lemma balancedFrom_header:
  "count_list hs (js ''BEGIN:VCALENDAR'') + d = 1 \<Longrightarrow> \<forall>l\<in>set hs. headerLine l \<Longrightarrow>
   balancedFrom d (hs @ rest) = balancedFrom 1 rest"
proof (induction hs arbitrary: d)
  case Nil
  then show ?case by simp
next
  case (Cons l hs)
  from Cons.prems(2) have hl: "l \<noteq> js ''BEGIN:VEVENT''" "l \<noteq> js ''END:VEVENT''"
    "l \<noteq> js ''END:VCALENDAR''"
    by (simp_all add: headerLine_def)
  show ?case
  proof (cases "l = js ''BEGIN:VCALENDAR''")
    case True
    with Cons.prems(1) have d: "d = 0" and c: "count_list hs (js ''BEGIN:VCALENDAR'') + 1 = 1"
      by simp_all
    from Cons.IH[OF c] Cons.prems(2) d True show ?thesis by simp
  next
    case False
    with Cons.prems(1) have "count_list hs (js ''BEGIN:VCALENDAR'') + d = 1" by simp
    from Cons.IH[OF this] Cons.prems(2) False hl show ?thesis by simp
  qed
qed

lemma balancedFrom_body:
  "\<forall>p\<in>set ps. \<not> isMarker p \<Longrightarrow> balancedFrom d (ps @ rest) = balancedFrom d rest"
  by (induction ps) (simp_all add: isMarker_def)

lemma balancedFrom_blocks:
  "\<forall>b\<in>set bs. \<forall>l\<in>set b. \<not> isMarker l \<Longrightarrow>
   balancedFrom 1 (concat (map eventBlock bs) @ rest) = balancedFrom 1 rest"
proof (induction bs)
  case (Cons b bs)
  then have nm: "\<forall>l\<in>set b. \<not> isMarker l" by simp
  have "balancedFrom 1 (concat (map eventBlock (b # bs)) @ rest) =
        balancedFrom 2 (b @ js ''END:VEVENT'' # concat (map eventBlock bs) @ rest)"
    by (simp add: eventBlock_def js_def)
  also have "\<dots> = balancedFrom 2 (js ''END:VEVENT'' # concat (map eventBlock bs) @ rest)"
    by (rule balancedFrom_body[OF nm])
  also have "\<dots> = balancedFrom 1 (concat (map eventBlock bs) @ rest)" by (simp add: js_def)
  finally show ?case using Cons by simp
qed simp

text \<open>The groups of physical lines of the events written: for each event the marker
  \<open>BEGIN:VEVENT\<close>, the groups of its kept lines, the marker \<open>END:VEVENT\<close>.\<close>

lemma writeEvents_folds:
  assumes "\<forall>e\<in>set evs. \<forall>l\<in>set (eventSource e). goodLine l \<and> noAdjHigh l"
  shows "\<exists>qsss. writeEvents h cleanMode evs =
             Some (map (joinWith CRLF)
                    (concat (map (\<lambda>qss. [js ''BEGIN:VEVENT''] # qss @ [[js ''END:VEVENT'']]) qsss)))
           \<and> list_all2 (\<lambda>e qss. list_all2 foldsTo (filter (keptLine h cleanMode) (eventSource e)) qss)
                evs qsss"
  using assms
proof (induction evs)
  case Nil
  show ?case by (intro exI[of _ "[]"]) simp
next
  case (Cons e evs)
  then obtain qsss where
    r: "writeEvents h cleanMode evs =
             Some (map (joinWith CRLF)
                    (concat (map (\<lambda>qss. [js ''BEGIN:VEVENT''] # qss @ [[js ''END:VEVENT'']]) qsss)))"
       "list_all2 (\<lambda>e qss. list_all2 foldsTo (filter (keptLine h cleanMode) (eventSource e)) qss)
                evs qsss"
    by auto
  let ?ls = "filter (keptLine h cleanMode) (eventSource e)"
  from Cons.prems have g: "\<forall>l\<in>set ?ls. goodLine l \<and> noAdjHigh l" by auto
  from foldAll_folds[OF g] obtain qss where
    q: "foldAll ?ls = Some (map (joinWith CRLF) qss)" "list_all2 foldsTo ?ls qss"
    by auto
  from q r show ?case by (intro exI[of _ "qss # qsss"]) simp
qed

lemma concat_event_groups:
  "concat (concat (map (\<lambda>qss. [js ''BEGIN:VEVENT''] # qss @ [[js ''END:VEVENT'']]) qsss)) =
   concat (map eventBlock (map concat qsss))"
  by (induction qsss) (simp_all add: eventBlock_def)

lemma crlfLines_append: "crlfLines (xs @ ys) = crlfLines xs @ crlfLines ys"
  by (simp add: crlfLines_def)

lemma join_groups:
  "pss \<noteq> [] \<Longrightarrow> \<forall>ps\<in>set pss. ps \<noteq> [] \<Longrightarrow>
   joinWith CRLF (map (joinWith CRLF) pss) @ CRLF = crlfLines (concat pss)"
proof -
  assume ne: "pss \<noteq> []" and all: "\<forall>ps\<in>set pss. ps \<noteq> []"
  have "joinWith CRLF (map (joinWith CRLF) pss) @ CRLF =
        concat (map (\<lambda>f. f @ CRLF) (map (joinWith CRLF) pss))"
    using ne by (intro joinWith_terminated) simp
  also have "\<dots> = concat (map crlfLines pss)"
  proof -
    have "\<And>ps. ps \<in> set pss \<Longrightarrow> joinWith CRLF ps @ CRLF = crlfLines ps"
      using all by (simp add: crlfLines_def joinWith_terminated)
    then have m: "map (\<lambda>ps. joinWith CRLF ps @ CRLF) pss = map crlfLines pss"
      by (intro map_cong) simp_all
    have "map (\<lambda>f. f @ CRLF) (map (joinWith CRLF) pss) =
          map (\<lambda>ps. joinWith CRLF ps @ CRLF) pss"
      by (simp add: comp_def)
    then show ?thesis by (simp only: m)
  qed
  also have "\<dots> = crlfLines (concat pss)"
    by (induction pss) (simp_all add: crlfLines_append, simp add: crlfLines_def)
  finally show ?thesis .
qed


text \<open>
  C4 (balanced output), as amended. Take a calendar produced by \<open>parse\<close> whose
  \<open>headerLines\<close> are empty or hold the line \<open>BEGIN:VCALENDAR\<close> exactly once, any list
  of its events none of which has \<open>BEGIN:VCALENDAR\<close> among its raw lines, and let no
  header line and no line of these events hold two high surrogates in a row. Then
  \<open>write\<close> returns, in either mode, a text of this shape, every line followed by CRLF:
  the header lines \<open>hs\<close>, then for each event of the list, in order, one block
  \<open>BEGIN:VEVENT\<close>, body, \<open>END:VEVENT\<close>, then the line \<open>END:VCALENDAR\<close>, which with its CRLF
  ends the text. The header lines are the folded header of the calendar (or the default
  header), hold \<open>BEGIN:VCALENDAR\<close> exactly once and none of \<open>BEGIN:VEVENT\<close>, \<open>END:VEVENT\<close>,
  \<open>END:VCALENDAR\<close>; the body of each block is the folded kept lines of its event and
  holds none of the four markers; every line is non-empty and free of CR and LF, so
  the text ends with exactly one CRLF. In particular the lines are balanced.
\<close>

theorem write_balanced:
  assumes "cal = parse icsContent" and "set evs \<subseteq> set (events cal)"
    and "headerLines cal = [] \<or> count_list (headerLines cal) (js ''BEGIN:VCALENDAR'') = 1"
    and "\<forall>e\<in>set evs. js ''BEGIN:VCALENDAR'' \<notin> set (rawLines e)"
    and "foldableHeader cal" and "foldableEvents evs"
  shows "\<exists>hs bs.
           writeICal h cal evs cleanMode =
             Some (crlfLines (hs @ concat (map eventBlock bs) @ [js ''END:VCALENDAR'']))
         \<and> writtenHeader cal hs
         \<and> list_all2 (writtenBody h cleanMode) evs bs
         \<and> count_list hs (js ''BEGIN:VCALENDAR'') = 1
         \<and> (\<forall>l\<in>set hs. headerLine l \<and> plainLine l)
         \<and> (\<forall>b\<in>set bs. \<forall>l\<in>set b. \<not> isMarker l \<and> plainLine l)
         \<and> balanced (hs @ concat (map eventBlock bs) @ [js ''END:VCALENDAR''])
         \<and> (\<exists>pre. writeICal h cal evs cleanMode = Some (pre @ js ''END:VCALENDAR'' @ CRLF))"
proof -
  have ev: "\<forall>e\<in>set evs. \<forall>l\<in>set (eventSource e). goodLine l \<and> noAdjHigh l"
    and evm: "\<forall>e\<in>set evs. \<forall>l\<in>set (eventSource e). \<not> isMarker l"
  proof -
    have "\<forall>e\<in>set evs. \<forall>l\<in>set (eventSource e). goodLine l \<and> noAdjHigh l \<and> \<not> isMarker l"
    proof (intro ballI)
      fix e l assume e: "e \<in> set evs" and l: "l \<in> set (eventSource e)"
      from e assms(1,2) parse_events_OK[of e icsContent] have ok: "eventOK e" by auto
      then have src: "eventSource e = rawLines e" by (simp add: eventOK_def eventSource_raw)
      with ok l have "goodLine l" "bodyLine l" by (auto simp: eventOK_def)
      moreover from assms(4) e l src have "l \<noteq> js ''BEGIN:VCALENDAR''" by auto
      moreover from assms(6) e l have "noAdjHigh l" by (auto simp: foldableEvents_def)
      ultimately show "goodLine l \<and> noAdjHigh l \<and> \<not> isMarker l"
        by (auto simp: isMarker_def bodyLine_def)
    qed
    then show "\<forall>e\<in>set evs. \<forall>l\<in>set (eventSource e). goodLine l \<and> noAdjHigh l"
      and "\<forall>e\<in>set evs. \<forall>l\<in>set (eventSource e). \<not> isMarker l"
      by blast+
  qed
  from writeEvents_folds[OF ev, of h cleanMode] obtain qsss where
    w: "writeEvents h cleanMode evs =
             Some (map (joinWith CRLF)
                    (concat (map (\<lambda>qss. [js ''BEGIN:VEVENT''] # qss @ [[js ''END:VEVENT'']]) qsss)))"
    and q: "list_all2 (\<lambda>e qss. list_all2 foldsTo (filter (keptLine h cleanMode) (eventSource e)) qss)
                evs qsss"
    by blast
  let ?egs = "concat (map (\<lambda>qss. [js ''BEGIN:VEVENT''] # qss @ [[js ''END:VEVENT'']]) qsss)"
  define bs where "bs = map concat qsss"
  have wb: "list_all2 (writtenBody h cleanMode) evs bs"
    unfolding bs_def list_all2_map2 writtenBody_def
    using q by (rule list_all2_mono) blast
  have bprops: "\<forall>b\<in>set bs. \<forall>l\<in>set b. \<not> isMarker l \<and> plainLine l"
    and egne: "\<forall>ps\<in>set ?egs. ps \<noteq> []"
  proof -
    have "\<forall>qss\<in>set qsss. (\<forall>p\<in>set (concat qss). \<not> isMarker p \<and> plainLine p) \<and>
                            (\<forall>ps\<in>set qss. ps \<noteq> [])"
    proof
      fix qss assume "qss \<in> set qsss"
      from list_all2_rightD[OF q this] obtain e where e: "e \<in> set evs"
        and f: "list_all2 foldsTo (filter (keptLine h cleanMode) (eventSource e)) qss"
        by blast
      from e evm have "\<forall>l\<in>set (filter (keptLine h cleanMode) (eventSource e)). \<not> isMarker l"
        by auto
      from foldsTo_no_marker[OF f this] foldsTo_groups[OF f]
      show "(\<forall>p\<in>set (concat qss). \<not> isMarker p \<and> plainLine p) \<and> (\<forall>ps\<in>set qss. ps \<noteq> [])"
        by auto
    qed
    then show "\<forall>b\<in>set bs. \<forall>l\<in>set b. \<not> isMarker l \<and> plainLine l"
      and "\<forall>ps\<in>set ?egs. ps \<noteq> []"
      by (auto simp: bs_def)
  qed
  have "\<exists>hss. (if headerLines cal \<noteq> [] then foldAll (headerLines cal) else Some defaultHeader) =
             Some (map (joinWith CRLF) hss)
           \<and> (\<forall>ps\<in>set hss. ps \<noteq> [])
           \<and> writtenHeader cal (concat hss)
           \<and> count_list (concat hss) (js ''BEGIN:VCALENDAR'') = 1
           \<and> (\<forall>l\<in>set (concat hss). headerLine l \<and> plainLine l)"
  proof (cases "headerLines cal = []")
    case True
    let ?hss = "map (\<lambda>l. [l]) defaultHeader"
    have c: "concat ?hss = defaultHeader" by (simp add: defaultHeader_def)
    have "map (joinWith CRLF) ?hss = defaultHeader" by (simp add: defaultHeader_def)
    moreover have "\<forall>ps\<in>set ?hss. ps \<noteq> []" by simp
    moreover have "writtenHeader cal (concat ?hss)" using True c by (simp add: writtenHeader_def)
    moreover have "count_list (concat ?hss) (js ''BEGIN:VCALENDAR'') = 1"
      unfolding c by (simp add: defaultHeader_def js_def)
    moreover have "\<forall>l\<in>set (concat ?hss). headerLine l \<and> plainLine l"
      unfolding c by (simp add: defaultHeader_def js_def headerLine_def plainLine_def)
    ultimately show ?thesis using True by (intro exI[of _ ?hss]) simp
  next
    case False
    with assms(3) have cnt: "count_list (headerLines cal) (js ''BEGIN:VCALENDAR'') = 1" by simp
    have g: "\<forall>l\<in>set (headerLines cal). goodLine l \<and> noAdjHigh l"
      using parse_header_OK[of _ icsContent] assms(1,5) by (auto simp: foldableHeader_def)
    have hl: "\<forall>l\<in>set (headerLines cal). headerLine l"
      using parse_header_OK[of _ icsContent] assms(1) by auto
    from foldAll_folds[OF g] obtain hss where
      h: "foldAll (headerLines cal) = Some (map (joinWith CRLF) hss)"
         "list_all2 foldsTo (headerLines cal) hss"
      by auto
    have "writtenHeader cal (concat hss)" using False h(2) by (auto simp: writtenHeader_def)
    with foldsTo_header[OF h(2) hl] foldsTo_groups[OF h(2)] cnt h(1) False
    show ?thesis by (intro exI[of _ hss]) auto
  qed
  then obtain hss where
    hd: "(if headerLines cal \<noteq> [] then foldAll (headerLines cal) else Some defaultHeader) =
             Some (map (joinWith CRLF) hss)"
        "\<forall>ps\<in>set hss. ps \<noteq> []"
        "writtenHeader cal (concat hss)"
        "count_list (concat hss) (js ''BEGIN:VCALENDAR'') = 1"
        "\<forall>l\<in>set (concat hss). headerLine l \<and> plainLine l"
    by blast
  define hs where "hs = concat hss"
  let ?all = "hss @ ?egs @ [[js ''END:VCALENDAR'']]"
  let ?ls = "hs @ concat (map eventBlock bs) @ [js ''END:VCALENDAR'']"
  have "writeICal h cal evs cleanMode =
      Some (joinWith CRLF (map (joinWith CRLF) ?all) @ CRLF)"
    unfolding writeICal_def hd(1) w by simp
  also have "joinWith CRLF (map (joinWith CRLF) ?all) @ CRLF = crlfLines (concat ?all)"
    using hd(2) egne by (intro join_groups) auto
  also have "concat ?all = ?ls"
    by (simp add: hs_def bs_def concat_event_groups)
  finally have wr: "writeICal h cal evs cleanMode = Some (crlfLines ?ls)" .
  have "balancedFrom 0 ?ls = balancedFrom 1 (concat (map eventBlock bs) @ [js ''END:VCALENDAR''])"
    using hd(4,5) by (intro balancedFrom_header) (simp_all add: hs_def)
  also have "\<dots> = balancedFrom 1 [js ''END:VCALENDAR'']"
    using bprops by (intro balancedFrom_blocks) simp
  also have "\<dots> = True" by (simp add: js_def)
  finally have bal: "balanced ?ls" by (simp add: balanced_def)
  have "crlfLines ?ls =
        crlfLines (hs @ concat (map eventBlock bs)) @ js ''END:VCALENDAR'' @ CRLF"
    by (simp add: crlfLines_append crlfLines_def flip: append_assoc)
  with wr have en: "\<exists>pre. writeICal h cal evs cleanMode = Some (pre @ js ''END:VCALENDAR'' @ CRLF)"
    by simp
  from wr hd(3,4,5) wb bprops bal en show ?thesis
    unfolding hs_def[symmetric] by blast
qed

lemma parse_smallCalendar:
  "parse smallCalendar =
     \<lparr>headerLines = [js ''BEGIN:VCALENDAR'', js ''VERSION:2.0''],
      events = [undatedEvent],
      calProperties = [(js ''VERSION'', \<lparr>cprop_value = js ''2.0'', cprop_raw = js ''VERSION:2.0''\<rparr>)]\<rparr>"
  by code_simp

theorem write_balanced_witness:
  "writeICal utcHost (parse smallCalendar) [undatedEvent] True =
     Some (crlfLines [js ''BEGIN:VCALENDAR'', js ''VERSION:2.0'', js ''BEGIN:VEVENT'',
                      js ''SUMMARY:x'', js ''END:VEVENT'', js ''END:VCALENDAR''])
   \<and> events (parse smallCalendar) = [undatedEvent]
   \<and> count_list (headerLines (parse smallCalendar)) (js ''BEGIN:VCALENDAR'') = 1
   \<and> js ''BEGIN:VCALENDAR'' \<notin> set (rawLines undatedEvent)
   \<and> foldableHeader (parse smallCalendar) \<and> foldableEvents [undatedEvent]
   \<and> (\<exists>hs bs.
         writeICal utcHost (parse smallCalendar) [undatedEvent] True =
           Some (crlfLines (hs @ concat (map eventBlock bs) @ [js ''END:VCALENDAR'']))
       \<and> writtenHeader (parse smallCalendar) hs
       \<and> list_all2 (writtenBody utcHost True) [undatedEvent] bs
       \<and> count_list hs (js ''BEGIN:VCALENDAR'') = 1
       \<and> balanced (hs @ concat (map eventBlock bs) @ [js ''END:VCALENDAR'']))"
proof -
  have w: "writeICal utcHost (parse smallCalendar) [undatedEvent] True =
     Some (crlfLines [js ''BEGIN:VCALENDAR'', js ''VERSION:2.0'', js ''BEGIN:VEVENT'',
                      js ''SUMMARY:x'', js ''END:VEVENT'', js ''END:VCALENDAR''])"
    unfolding parse_smallCalendar by code_simp
  have e: "events (parse smallCalendar) = [undatedEvent]"
    by (simp add: parse_smallCalendar)
  then have s: "set [undatedEvent] \<subseteq> set (events (parse smallCalendar))" by simp
  have c1: "count_list (headerLines (parse smallCalendar)) (js ''BEGIN:VCALENDAR'') = 1"
    by (simp add: parse_smallCalendar js_def)
  then have c: "headerLines (parse smallCalendar) = [] \<or>
           count_list (headerLines (parse smallCalendar)) (js ''BEGIN:VCALENDAR'') = 1"
    by simp
  have n1: "js ''BEGIN:VCALENDAR'' \<notin> set (rawLines undatedEvent)"
    by (simp add: undatedEvent_def js_def)
  then have n: "\<forall>e\<in>set [undatedEvent]. js ''BEGIN:VCALENDAR'' \<notin> set (rawLines e)"
    by simp
  have fh: "foldableHeader (parse smallCalendar)"
    unfolding parse_smallCalendar by code_simp
  have fe: "foldableEvents [undatedEvent]" by code_simp
  from write_balanced[OF refl s c n fh fe, of utcHost True]
  have "\<exists>hs bs.
         writeICal utcHost (parse smallCalendar) [undatedEvent] True =
           Some (crlfLines (hs @ concat (map eventBlock bs) @ [js ''END:VCALENDAR'']))
       \<and> writtenHeader (parse smallCalendar) hs
       \<and> list_all2 (writtenBody utcHost True) [undatedEvent] bs
       \<and> count_list hs (js ''BEGIN:VCALENDAR'') = 1
       \<and> balanced (hs @ concat (map eventBlock bs) @ [js ''END:VCALENDAR''])"
    by blast
  with w e c1 n1 fh fe show ?thesis by blast
qed

text \<open>
  C4 as stated fails on a text without \<open>BEGIN:VCALENDAR\<close>: \<open>parse\<close> accepts it, its
  header is written back as it is, and the output closes a calendar that it never
  opened.
\<close>

theorem write_unbalanced_counterexample:
  "writeICal utcHost (parse noBeginCalendar) (events (parse noBeginCalendar)) True =
     Some (crlfLines [js ''VERSION:2.0'', js ''BEGIN:VEVENT'', js ''SUMMARY:x'',
                      js ''END:VEVENT'', js ''END:VCALENDAR''])
   \<and> \<not> balanced [js ''VERSION:2.0'', js ''BEGIN:VEVENT'', js ''SUMMARY:x'',
                   js ''END:VEVENT'', js ''END:VCALENDAR'']"
  by code_simp

end
